theory Spec2Isabelle
  imports Main "HOL-Library.Sublist"
begin

section \<open>Strings as the import code uses them\<close>

text \<open>
  The module works on unicode strings. A string is a list of characters, a character is a
  code point below 256. The string methods the module calls are written out here:
  \<^verbatim>\<open>strip\<close>, \<^verbatim>\<open>lower\<close>, \<^verbatim>\<open>endswith\<close>, \<^verbatim>\<open>split(sep, 1)\<close> and the
  substring test \<^verbatim>\<open>in\<close>.
\<close>

definition is_space :: "char \<Rightarrow> bool" where
  "is_space c = (of_char c \<in> {9, 10, 11, 12, 13, 28, 29, 30, 31, 32, 133, 160 :: nat})"

definition strip :: "string \<Rightarrow> string" where
  "strip s = rev (dropWhile is_space (rev (dropWhile is_space s)))"

definition lower_char :: "char \<Rightarrow> char" where
  "lower_char c =
     (let n = (of_char c :: nat)
      in if (65 \<le> n \<and> n \<le> 90) \<or> (192 \<le> n \<and> n \<le> 222 \<and> n \<noteq> 215)
         then char_of (n + 32) else c)"

definition lower :: "string \<Rightarrow> string" where
  "lower s = map lower_char s"

definition endswith :: "string \<Rightarrow> string \<Rightarrow> bool" where
  "endswith s suf = (length suf \<le> length s \<and> drop (length s - length suf) s = suf)"

text \<open>\<^verbatim>\<open>s.split(c, 1)\<close> for a separator of one character.\<close>

definition split1 :: "char \<Rightarrow> string \<Rightarrow> string list" where
  "split1 c s =
     (if c \<in> set s then [takeWhile (\<lambda>x. x \<noteq> c) s, tl (dropWhile (\<lambda>x. x \<noteq> c) s)]
      else [s])"

text \<open>
  \<^verbatim>\<open>s.split(sep, 1)\<close> for a separator of several characters: the text before and after
  the first occurrence of \<open>sep\<close>, or nothing when \<open>sep\<close> does not occur (\<^verbatim>\<open>sep in s\<close>
  is false).
\<close>

fun split_sep :: "string \<Rightarrow> string \<Rightarrow> (string \<times> string) option" where
  "split_sep sep [] = (if sep = [] then Some ([], []) else None)"
| "split_sep sep (c # cs) =
     (if take (length sep) (c # cs) = sep then Some ([], drop (length sep) (c # cs))
      else (case split_sep sep cs of
              None \<Rightarrow> None
            | Some (a, b) \<Rightarrow> Some (c # a, b)))"

definition join2 :: "string \<Rightarrow> string \<Rightarrow> string \<Rightarrow> string" where
  "join2 sep a b = a @ sep @ b"

section \<open>Data\<close>

text \<open>
  An entity and a parsed user are Python dictionaries from field names to strings.
  A relationship pair is a pair of such dictionaries.
\<close>

type_synonym entity = "string \<rightharpoonup> string"
type_synonym pair = "entity \<times> entity"

datatype error =
    KeyError string
  | IndexError
  | TypeError
  | ValueError
  | DecodeError
  | UnknownField string
  | DanglingReference
  | StoreFailure

text \<open>
  A block as \<^verbatim>\<open>parse_blocks\<close> delivers it: the value of the field that starts the
  block is one string, every other field holds the list of its values. The name of the
  starting field is fixed by the caller (\<^verbatim>\<open>DOMAIN\<close> for the domain text,
  \<^verbatim>\<open>TREE PATH\<close> for the tree text), so the functions below take it as an argument
  where they look at the keys of a block.
\<close>

record block =
  head_value :: string
  others :: "string \<rightharpoonup> string list"

definition has_key :: "string \<Rightarrow> block \<Rightarrow> string \<Rightarrow> bool" where
  "has_key starter data k = (k = starter \<or> others data k \<noteq> None)"

text \<open>
  \<^verbatim>\<open>for ustring in data[role]\<close>: the values of a field. Iterating the starting
  field's string gives its characters one by one.
\<close>

definition field_values :: "string \<Rightarrow> block \<Rightarrow> string \<Rightarrow> string list" where
  "field_values starter data k =
     (if k = starter then map (\<lambda>c. [c]) (head_value data)
      else (case others data k of None \<Rightarrow> [] | Some vs \<Rightarrow> vs))"

text \<open>
  \<^verbatim>\<open>ROLES & set(data.keys())\<close>. \<^verbatim>\<open>ROLES\<close> comes from \<^verbatim>\<open>role_choices()\<close> of
  \<^verbatim>\<open>iris.core.models.user\<close>; it is an argument here, a list without order of its own
  in the source, enumerated in the order of the list.
\<close>

definition block_roles :: "string list \<Rightarrow> string \<Rightarrow> block \<Rightarrow> string list" where
  "block_roles rs starter data = filter (has_key starter data) rs"

definition NONAME :: string where
  "NONAME = ''Uncategorized''"

section \<open>Names\<close>

definition parse_name :: "string \<Rightarrow> string \<times> string" where
  "parse_name name =
     (case map strip (split1 CHR ''/'' name) of
        [p] \<Rightarrow> (if p \<noteq> [] then (p, NONAME) else (NONAME, NONAME))
      | p # q # _ \<Rightarrow> (p, q)
      | [] \<Rightarrow> (NONAME, NONAME))"

definition rolename :: "string \<Rightarrow> string \<Rightarrow> string" where
  "rolename role name = role @ '': '' @ name"

definition subrolename :: "string \<Rightarrow> string \<Rightarrow> string \<Rightarrow> string" where
  "subrolename role dname sname = role @ '': '' @ dname @ ''-'' @ sname"

section \<open>Parties\<close>

text \<open>
  \<^verbatim>\<open>transform_parties\<close>. The loop over the users stops at the first user whose
  \<^verbatim>\<open>email\<close> key is missing (\<^verbatim>\<open>KeyError\<close>) or whose email has no \<^verbatim>\<open>@\<close>
  (\<^verbatim>\<open>split('@', 1)[1]\<close> is out of range). The result of \<^verbatim>\<open>party_choices()\<close>, a
  list of pairs, is an argument.
\<close>

definition email_party :: "string \<Rightarrow> error + string" where
  "email_party email =
     (case split1 CHR ''@'' email of
        _ # d # _ \<Rightarrow>
          (let suffix = lower d
           in if endswith suffix ''intel.com'' then Inr ''INTEL''
              else if endswith suffix ''samsung.com'' then Inr ''SAMSUNG''
              else Inr ''TIZEN'')
      | _ \<Rightarrow> Inl IndexError)"

fun party_users_loop :: "entity list \<Rightarrow> pair list \<Rightarrow> error + pair list" where
  "party_users_loop [] party_users = Inr party_users"
| "party_users_loop (user # users) party_users =
     (case user ''email'' of
        None \<Rightarrow> Inl (KeyError ''email'')
      | Some email \<Rightarrow>
          (case email_party email of
             Inl e \<Rightarrow> Inl e
           | Inr party \<Rightarrow>
               party_users_loop users (party_users @ [([''party'' \<mapsto> party], user)])))"

definition transform_parties ::
  "(string \<times> string) list \<Rightarrow> entity list \<Rightarrow> error + (entity list \<times> pair list)" where
  "transform_parties choices users =
     (let parties = map (\<lambda>(p, n). [''party'' \<mapsto> p, ''name'' \<mapsto> n]) choices
      in case party_users_loop users [] of
           Inl e \<Rightarrow> Inl e
         | Inr party_users \<Rightarrow> Inr (parties, party_users))"

text \<open>The rule of the specification: suffix matching with a default bucket.\<close>

definition party_by_suffix :: "string \<Rightarrow> string" where
  "party_by_suffix d =
     (if suffix ''intel.com'' (lower d) then ''INTEL''
      else if suffix ''samsung.com'' (lower d) then ''SAMSUNG''
      else ''TIZEN'')"

definition email_ok :: "entity \<Rightarrow> bool" where
  "email_ok user = (case user ''email'' of None \<Rightarrow> False | Some e \<Rightarrow> CHR ''@'' \<in> set e)"


section \<open>Domains, subdomains and their roles\<close>

text \<open>
  \<^verbatim>\<open>transform_domains\<close> fills six lists. The two inner functions of the source append
  to them; here they take the lists and return them. \<open>get\<close> is \<^verbatim>\<open>uc.get\<close>, and
  \<^verbatim>\<open>if user\<close> holds for a record that is there and is not the empty dictionary.
\<close>

record domains_out =
  domains :: "entity list"
  subdomains :: "entity list"
  domainroles :: "entity list"
  subdomainroles :: "entity list"
  domainrole_users :: "pair list"
  subdomainrole_users :: "pair list"

definition add_role_users ::
  "(string \<Rightarrow> entity option) \<Rightarrow> entity \<Rightarrow> string list \<Rightarrow> pair list \<Rightarrow> pair list" where
  "add_role_users get r ustrings acc =
     fold (\<lambda>ustring acc.
             case get ustring of
               None \<Rightarrow> acc
             | Some user \<Rightarrow> if user = Map.empty then acc else acc @ [(r, user)])
          ustrings acc"

definition trans_subdomain ::
  "string list \<Rightarrow> (string \<Rightarrow> entity option) \<Rightarrow> block \<Rightarrow> domains_out \<Rightarrow> domains_out" where
  "trans_subdomain rs get data st =
     (case parse_name (head_value data) of (dname, sname) \<Rightarrow>
        fold (\<lambda>role st.
                let sr = [''role'' \<mapsto> role, ''subdomain__name'' \<mapsto> sname,
                          ''subdomain__domain__name'' \<mapsto> dname]
                in st\<lparr>subdomainroles :=
                        subdomainroles st @ [sr(''name'' \<mapsto> subrolename role dname sname)],
                      subdomainrole_users :=
                        add_role_users get sr (field_values ''DOMAIN'' data role)
                          (subdomainrole_users st)\<rparr>)
             (block_roles rs ''DOMAIN'' data)
             (st\<lparr>subdomains :=
                   subdomains st @ [[''name'' \<mapsto> sname, ''domain__name'' \<mapsto> dname]]\<rparr>))"

definition trans_domain ::
  "string list \<Rightarrow> (string \<Rightarrow> entity option) \<Rightarrow> block \<Rightarrow> domains_out \<Rightarrow> domains_out" where
  "trans_domain rs get data st =
     (let name = head_value data
      in fold (\<lambda>role st.
                 let dr = [''role'' \<mapsto> role, ''domain__name'' \<mapsto> name]
                 in st\<lparr>domainroles := domainroles st @ [dr(''name'' \<mapsto> rolename role name)],
                       domainrole_users :=
                         add_role_users get dr (field_values ''DOMAIN'' data role)
                           (domainrole_users st)\<rparr>)
              (block_roles rs ''DOMAIN'' data)
              (st\<lparr>domains := domains st @ [[''name'' \<mapsto> name]]\<rparr>))"

text \<open>
  The last loop of \<^verbatim>\<open>transform_domains\<close>: one \<^verbatim>\<open>Uncategorized\<close> subdomain for every
  domain. \<^verbatim>\<open>domain['name']\<close> raises \<^verbatim>\<open>KeyError\<close> on a dictionary without that key.
\<close>

fun uncategorized_subdomains :: "entity list \<Rightarrow> entity list \<Rightarrow> error + entity list" where
  "uncategorized_subdomains [] subs = Inr subs"
| "uncategorized_subdomains (domain # ds) subs =
     (case domain ''name'' of
        None \<Rightarrow> Inl (KeyError ''name'')
      | Some n \<Rightarrow>
          uncategorized_subdomains ds (subs @ [[''name'' \<mapsto> NONAME, ''domain__name'' \<mapsto> n]]))"

text \<open>The body of the loop over the blocks: a block with a \<^verbatim>\<open>PARENT\<close> is a subdomain.\<close>

definition domain_step ::
  "string list \<Rightarrow> (string \<Rightarrow> entity option) \<Rightarrow> block \<Rightarrow> domains_out \<Rightarrow> domains_out" where
  "domain_step rs get data st =
     (if has_key ''DOMAIN'' data ''PARENT'' then trans_subdomain rs get data st
      else trans_domain rs get data st)"

definition transform_domains ::
  "string list \<Rightarrow> block list \<Rightarrow> (string \<Rightarrow> entity option) \<Rightarrow> error + domains_out" where
  "transform_domains rs domains_data get =
     (let st0 = \<lparr>domains = [[''name'' \<mapsto> NONAME]], subdomains = [],
                 domainroles = [], subdomainroles = [],
                 domainrole_users = [], subdomainrole_users = []\<rparr>;
          st1 = fold (domain_step rs get) domains_data st0
      in case uncategorized_subdomains (domains st1) (subdomains st1) of
           Inl e \<Rightarrow> Inl e
         | Inr subs \<Rightarrow> Inr (st1\<lparr>subdomains := subs\<rparr>))"

section \<open>Trees, licenses and tree roles\<close>

record trees_out =
  trees :: "entity list"
  tree_licenses :: "pair list"
  treeroles :: "entity list"
  treerole_users :: "pair list"

text \<open>
  One pass of the loop of \<^verbatim>\<open>transform_trees\<close>. \<^verbatim>\<open>data.get('DOMAIN', [no_domain])[0]\<close>
  is out of range on an empty list of values; unpacking the result of
  \<^verbatim>\<open>name.split(' / ', 1)\<close> needs two parts.
\<close>

definition no_domain :: string where
  "no_domain = join2 '' / '' NONAME NONAME"

definition tree_domain_name :: "block \<Rightarrow> error + string" where
  "tree_domain_name data =
     (case (case others data ''DOMAIN'' of None \<Rightarrow> [no_domain] | Some vs \<Rightarrow> vs) of
        [] \<Rightarrow> Inl IndexError
      | v # _ \<Rightarrow>
          (let name = (if v \<noteq> [] then v else no_domain)
           in Inr (if split_sep '' / '' name = None then join2 '' / '' name NONAME
                   else name)))"

definition trans_tree ::
  "string list \<Rightarrow> (string \<Rightarrow> entity option) \<Rightarrow> block \<Rightarrow> trees_out \<Rightarrow> error + trees_out" where
  "trans_tree rs get data st =
     (let path = head_value data
      in case tree_domain_name data of
           Inl e \<Rightarrow> Inl e
         | Inr name \<Rightarrow>
             (case split_sep '' / '' name of
                None \<Rightarrow> Inl ValueError
              | Some (dname, sname) \<Rightarrow>
                  Inr (fold (\<lambda>role st.
                               let tr = [''role'' \<mapsto> role, ''gittree__gitpath'' \<mapsto> path]
                               in st\<lparr>treeroles :=
                                       treeroles st @ [tr(''name'' \<mapsto> rolename role path)],
                                     treerole_users :=
                                       add_role_users get tr
                                         (field_values ''TREE PATH'' data role)
                                         (treerole_users st)\<rparr>)
                            (block_roles rs ''TREE PATH'' data)
                            (st\<lparr>trees :=
                                  trees st @ [[''gitpath'' \<mapsto> path,
                                               ''subdomain__name'' \<mapsto> sname,
                                               ''subdomain__domain__name'' \<mapsto> dname]],
                                tree_licenses :=
                                  tree_licenses st @
                                  map (\<lambda>licen. ([''gitpath'' \<mapsto> path],
                                                 [''shortname'' \<mapsto> licen]))
                                      (case others data ''LICENSES'' of
                                         None \<Rightarrow> [] | Some ls \<Rightarrow> ls)\<rparr>))))"

fun trees_loop ::
  "string list \<Rightarrow> (string \<Rightarrow> entity option) \<Rightarrow> block list \<Rightarrow> trees_out \<Rightarrow> error + trees_out"
  where
  "trees_loop rs get [] st = Inr st"
| "trees_loop rs get (data # rest) st =
     (case trans_tree rs get data st of
        Inl e \<Rightarrow> Inl e
      | Inr st' \<Rightarrow> trees_loop rs get rest st')"

definition transform_trees ::
  "string list \<Rightarrow> block list \<Rightarrow> (string \<Rightarrow> entity option) \<Rightarrow> error + trees_out" where
  "transform_trees rs trees_data get =
     trees_loop rs get trees_data
       \<lparr>trees = [], tree_licenses = [], treeroles = [], treerole_users = []\<rparr>"

section \<open>Users\<close>

text \<open>
  \<^verbatim>\<open>dict(username=i['email'], **i)\<close>: \<^verbatim>\<open>KeyError\<close> without an email, \<^verbatim>\<open>TypeError\<close>
  when the record has a \<^verbatim>\<open>username\<close> of its own (the keyword is given twice).
\<close>

fun transform_users :: "entity list \<Rightarrow> error + entity list" where
  "transform_users [] = Inr []"
| "transform_users (i # ucusers) =
     (case i ''email'' of
        None \<Rightarrow> Inl (KeyError ''email'')
      | Some email \<Rightarrow>
          if i ''username'' \<noteq> None then Inl TypeError
          else (case transform_users ucusers of
                  Inl e \<Rightarrow> Inl e
                | Inr us \<Rightarrow> Inr (i(''username'' \<mapsto> email) # us)))"

section \<open>The import run\<close>

text \<open>
  The tables of \<^verbatim>\<open>iris.core.models\<close> and of \<^verbatim>\<open>django.contrib.auth.models\<close> that the
  module names.
\<close>

datatype table =
    User | Domain | SubDomain | GitTree | License
  | DomainRole | SubDomainRole | GitTreeRole | UserParty

text \<open>
  A step of the run works on the state \<open>'s\<close> of whatever is outside the module (the
  database behind the loader) and either returns a value or raises. The state after a
  step that raised is kept: nothing rolls it back.
\<close>

type_synonym ('a, 's) io = "'s \<Rightarrow> (error + 'a) \<times> 's"

definition bindE :: "('a, 's) io \<Rightarrow> ('a \<Rightarrow> ('b, 's) io) \<Rightarrow> ('b, 's) io" where
  "bindE m f = (\<lambda>s. case m s of (Inl e, s') \<Rightarrow> (Inl e, s') | (Inr x, s') \<Rightarrow> f x s')"

definition pureE :: "error + 'a \<Rightarrow> ('a, 's) io" where
  "pureE r = (\<lambda>s. (r, s))"

text \<open>
  What the module imports and does not define: \<^verbatim>\<open>ROLES\<close> and \<^verbatim>\<open>party_choices\<close> (from
  the models), \<^verbatim>\<open>parse_blocks\<close> and the class \<^verbatim>\<open>UserCache\<close> with its methods
  \<^verbatim>\<open>update\<close>, \<^verbatim>\<open>get\<close> and \<^verbatim>\<open>all\<close> (from \<^verbatim>\<open>iris.etl.parser\<close>), and the loader
  with its methods \<^verbatim>\<open>sync_entity\<close> and \<^verbatim>\<open>sync_nnr\<close> (from \<^verbatim>\<open>iris.etl.loader\<close>). The
  functions of the module take them as one argument. A cache is a value of type \<open>'c\<close>;
  \<^verbatim>\<open>sync_entity\<close> returns the deferred deletion, itself a step.
\<close>

record ('c, 's) env =
  ROLES :: "string list"
  party_choices :: "(string \<times> string) list"
  parse_blocks :: "string \<Rightarrow> string \<Rightarrow> (string \<times> string) list \<Rightarrow> (block list, 's) io"
  UserCache :: "'c"
  uc_update :: "string \<Rightarrow> 'c \<Rightarrow> 'c"
  uc_get :: "'c \<Rightarrow> string \<Rightarrow> entity option"
  uc_all :: "'c \<Rightarrow> entity list"
  sync_entity :: "entity list \<Rightarrow> table \<Rightarrow> ((unit, 's) io, 's) io"
  sync_nnr :: "pair list \<Rightarrow> table \<Rightarrow> table \<Rightarrow> (unit, 's) io"

definition MAPPING :: "(string \<times> string) list" where
  "MAPPING =
     [(''A'', ''ARCHITECT''), (''B'', ''BRANCH''), (''C'', ''COMMENTS''),
      (''D'', ''DOMAIN''), (''I'', ''INTEGRATOR''), (''L'', ''LICENSES''),
      (''M'', ''MAINTAINER''), (''N'', ''PARENT''), (''O'', ''DESCRIPTION''),
      (''R'', ''REVIEWER''), (''T'', ''TREE PATH''), (''SL'', ''SUBDOMAIN_LEADER'')]"

definition cache_block :: "('c, 's) env \<Rightarrow> string \<Rightarrow> block \<Rightarrow> 'c \<Rightarrow> 'c" where
  "cache_block E starter data uc =
     fold (\<lambda>role uc. fold (uc_update E) (field_values starter data role) uc)
          (block_roles (ROLES E) starter data) uc"

definition build_user_cache :: "('c, 's) env \<Rightarrow> block list \<Rightarrow> block list \<Rightarrow> 'c" where
  "build_user_cache E domains_data trees_data =
     (let uc = UserCache E;
          uc = fold (cache_block E ''DOMAIN'') domains_data uc;
          uc = fold (cache_block E ''TREE PATH'') trees_data uc
      in uc)"

text \<open>
  \<^verbatim>\<open>from_unicode\<close>: parse, extract and transform, load. The eight calls of
  \<^verbatim>\<open>sync_entity\<close>, the five of \<^verbatim>\<open>sync_nnr\<close> and the seven deferred deletions stand in
  the order of the source; the deletion that the first call returns is bound to no name
  there and is dropped here.
\<close>

definition load ::
  "('c, 's) env \<Rightarrow> entity list \<Rightarrow> domains_out \<Rightarrow> trees_out \<Rightarrow> entity list \<Rightarrow> pair list \<Rightarrow>
   (unit, 's) io" where
  "load E users d t parties party_users =
     bindE (sync_entity E users User) (\<lambda>_.
     bindE (sync_entity E (domains d) Domain) (\<lambda>delete_domains.
     bindE (sync_entity E (subdomains d) SubDomain) (\<lambda>delete_subdomains.
     bindE (sync_entity E (domainroles d) DomainRole) (\<lambda>delete_domainroles.
     bindE (sync_entity E (subdomainroles d) SubDomainRole) (\<lambda>delete_subdomainroles.
     bindE (sync_entity E (trees t) GitTree) (\<lambda>delete_trees.
     bindE (sync_entity E (treeroles t) GitTreeRole) (\<lambda>delete_treeroles.
     bindE (sync_entity E parties UserParty) (\<lambda>delete_partyroles.
     bindE (sync_nnr E (domainrole_users d) DomainRole User) (\<lambda>_.
     bindE (sync_nnr E (subdomainrole_users d) SubDomainRole User) (\<lambda>_.
     bindE (sync_nnr E (tree_licenses t) GitTree License) (\<lambda>_.
     bindE (sync_nnr E (treerole_users t) GitTreeRole User) (\<lambda>_.
     bindE (sync_nnr E party_users UserParty User) (\<lambda>_.
     bindE delete_partyroles (\<lambda>_.
     bindE delete_treeroles (\<lambda>_.
     bindE delete_subdomainroles (\<lambda>_.
     bindE delete_domainroles (\<lambda>_.
     bindE delete_trees (\<lambda>_.
     bindE delete_subdomains (\<lambda>_.
     delete_domains)))))))))))))))))))"

definition from_unicode :: "('c, 's) env \<Rightarrow> string \<Rightarrow> string \<Rightarrow> (unit, 's) io" where
  "from_unicode E domain_str gittree_str =
     bindE (parse_blocks E domain_str ''D'' MAPPING) (\<lambda>domains_data.
     bindE (parse_blocks E gittree_str ''T'' MAPPING) (\<lambda>trees_data.
     let uc = build_user_cache E domains_data trees_data
     in bindE (pureE (transform_users (uc_all E uc))) (\<lambda>users.
        bindE (pureE (transform_domains (ROLES E) domains_data (uc_get E uc))) (\<lambda>d.
        bindE (pureE (transform_trees (ROLES E) trees_data (uc_get E uc))) (\<lambda>t.
        bindE (pureE (transform_parties (party_choices E) users)) (\<lambda>(parties, party_users).
        load E users d t parties party_users))))))"

text \<open>
  \<^verbatim>\<open>from_string\<close>. A Python 2 \<^verbatim>\<open>str\<close> is a byte string and is decoded; a
  \<^verbatim>\<open>unicode\<close> object is passed on as it is. \<^verbatim>\<open>decode\<close> is the codec of the Python
  library, an argument here: it gives the text, or nothing when the bytes are not valid
  under the coding. The coding defaults to \<^verbatim>\<open>utf8\<close>.
\<close>

datatype pystring = Bytes "char list" | Unicode string

definition decode_arg ::
  "(string \<Rightarrow> char list \<Rightarrow> string option) \<Rightarrow> string \<Rightarrow> pystring \<Rightarrow> error + string" where
  "decode_arg decode coding x =
     (case x of
        Unicode u \<Rightarrow> Inr u
      | Bytes b \<Rightarrow> (case decode coding b of None \<Rightarrow> Inl DecodeError | Some u \<Rightarrow> Inr u))"

definition from_string ::
  "('c, 's) env \<Rightarrow> (string \<Rightarrow> char list \<Rightarrow> string option) \<Rightarrow>
   pystring \<Rightarrow> pystring \<Rightarrow> string option \<Rightarrow> (unit, 's) io" where
  "from_string E decode domain_str gittree_str coding_arg =
     (let coding = (case coding_arg of None \<Rightarrow> ''utf8'' | Some c \<Rightarrow> c)
      in bindE (pureE (decode_arg decode coding domain_str)) (\<lambda>domain_str.
         bindE (pureE (decode_arg decode coding gittree_str)) (\<lambda>gittree_str.
         from_unicode E domain_str gittree_str)))"

section \<open>Watching the calls\<close>

text \<open>
  To speak about the order of the calls, every call of \<^verbatim>\<open>parse_blocks\<close>,
  \<^verbatim>\<open>sync_entity\<close> and \<^verbatim>\<open>sync_nnr\<close> and every run of a deferred deletion is written to
  a log, at the moment it starts. \<open>watched E\<close> does what \<open>E\<close> does and keeps the log
  beside the state of \<open>E\<close>.
\<close>

datatype event =
    ParseBlocks string
  | SyncEntity table
  | SyncNnr table table
  | Delete table

definition logged :: "event \<Rightarrow> ('a, 's) io \<Rightarrow> ('a, 's \<times> event list) io" where
  "logged ev m = (\<lambda>(s, log). case m s of (r, s') \<Rightarrow> (r, (s', log @ [ev])))"

definition watched :: "('c, 's) env \<Rightarrow> ('c, 's \<times> event list) env" where
  "watched E =
     \<lparr>ROLES = ROLES E,
      party_choices = party_choices E,
      parse_blocks = (\<lambda>txt starter m. logged (ParseBlocks starter) (parse_blocks E txt starter m)),
      UserCache = UserCache E,
      uc_update = uc_update E,
      uc_get = uc_get E,
      uc_all = uc_all E,
      sync_entity = (\<lambda>desired tb.
         bindE (logged (SyncEntity tb) (sync_entity E desired tb))
               (\<lambda>deletion. pureE (Inr (logged (Delete tb) deletion)))),
      sync_nnr = (\<lambda>ps a b. logged (SyncNnr a b) (sync_nnr E ps a b))\<rparr>"

definition calls :: "('a, 's \<times> event list) io \<Rightarrow> 's \<Rightarrow> event list" where
  "calls m s = snd (snd (m (s, [])))"

definition returns :: "('a, 's) io \<Rightarrow> 's \<Rightarrow> bool" where
  "returns m s = (case fst (m s) of Inl _ \<Rightarrow> False | Inr _ \<Rightarrow> True)"

section \<open>Order of the calls\<close>

text \<open>
  \<open>happens_before a b log\<close>: where \<open>b\<close> is in the log, \<open>a\<close> stands before the first \<open>b\<close>
  and nowhere after it. \<open>deletions_last log\<close>: from the first deferred deletion on, the
  log holds deferred deletions only.
\<close>

definition happens_before :: "event \<Rightarrow> event \<Rightarrow> event list \<Rightarrow> bool" where
  "happens_before a b log =
     (case dropWhile (\<lambda>e. e \<noteq> b) log of
        [] \<Rightarrow> True
      | _ # later \<Rightarrow> a \<in> set (takeWhile (\<lambda>e. e \<noteq> b) log) \<and> a \<notin> set later)"

fun is_delete :: "event \<Rightarrow> bool" where
  "is_delete (Delete _) = True"
| "is_delete _ = False"

definition deletions_last :: "event list \<Rightarrow> bool" where
  "deletions_last log = list_all is_delete (dropWhile (\<lambda>e. \<not> is_delete e) log)"

text \<open>The calls of a run of \<^verbatim>\<open>from_unicode\<close> that returns, as the source orders them.\<close>

definition run_order :: "event list" where
  "run_order =
     [ParseBlocks ''D'', ParseBlocks ''T'',
      SyncEntity User, SyncEntity Domain, SyncEntity SubDomain, SyncEntity DomainRole,
      SyncEntity SubDomainRole, SyncEntity GitTree, SyncEntity GitTreeRole,
      SyncEntity UserParty,
      SyncNnr DomainRole User, SyncNnr SubDomainRole User, SyncNnr GitTree License,
      SyncNnr GitTreeRole User, SyncNnr UserParty User,
      Delete UserParty, Delete GitTreeRole, Delete SubDomainRole, Delete DomainRole,
      Delete GitTree, Delete SubDomain, Delete Domain]"

text \<open>
  \<open>emits m L Q\<close>: run from any state, the step \<open>m\<close> adds to the log a beginning of \<open>L\<close>,
  and all of \<open>L\<close> when it returns; what it returns then satisfies \<open>Q\<close>.
\<close>

definition emits :: "('a, 's \<times> event list) io \<Rightarrow> event list \<Rightarrow> ('a \<Rightarrow> bool) \<Rightarrow> bool" where
  "emits m L Q =
     (\<forall>s log. \<exists>k\<le>length L.
        snd (snd (m (s, log))) = log @ take k L \<and>
        (\<forall>x. fst (m (s, log)) = Inr x \<longrightarrow> k = length L \<and> Q x))"

text \<open>
  An environment that finds no block and stores nothing; its cache knows nobody. The
  code of the module runs in it on its own.
\<close>

definition idle_env :: "(unit, unit) env" where
  "idle_env =
     \<lparr>ROLES = [],
      party_choices = [],
      parse_blocks = (\<lambda>txt starter m. pureE (Inr [])),
      UserCache = (),
      uc_update = (\<lambda>ustring uc. uc),
      uc_get = (\<lambda>uc ustring. None),
      uc_all = (\<lambda>uc. []),
      sync_entity = (\<lambda>desired tb. pureE (Inr (pureE (Inr ())))),
      sync_nnr = (\<lambda>ps a b. pureE (Inr ()))\<rparr>"

text \<open>
  The \<^verbatim>\<open>ascii\<close> codec of the Python library, the one codec of this table: a byte
  string decodes when all its bytes are below 128, and then to the same characters.
\<close>

definition ascii_codec :: "string \<Rightarrow> char list \<Rightarrow> string option" where
  "ascii_codec coding b =
     (if coding = ''ascii'' \<and> list_all (\<lambda>c. (of_char c :: nat) < 128) b then Some b else None)"

section \<open>What the specification says of the role users\<close>










section \<open>The identity cache of the specification\<close>

text \<open>
  Modelled from the spec: the class \<^verbatim>\<open>UserCache\<close> of \<^verbatim>\<open>iris.etl.parser\<close>, which is not
  among the sources. The specification (sections 3 and 4.2) asks for a mapping from raw
  identity strings to canonical records, unique by email without regard to letter case,
  with \<^verbatim>\<open>update\<close>, \<^verbatim>\<open>get\<close> and \<^verbatim>\<open>all\<close>. A raw string has the shape
  \<^verbatim>\<open>Display Name <email>\<close>; without a display name the part of the email before the
  \<^verbatim>\<open>@\<close> is the name; a string without \<^verbatim>\<open><\<close>, without \<^verbatim>\<open>>\<close> after it, or without an
  \<^verbatim>\<open>@\<close> in the email is malformed and registers nothing.
\<close>

definition parse_identity :: "string \<Rightarrow> (string \<times> string) option" where
  "parse_identity raw =
     (case split1 CHR ''<'' raw of
        display # rest # _ \<Rightarrow>
          (case split1 CHR ''>'' rest of
             address # _ # _ \<Rightarrow>
               (case split1 CHR ''@'' (strip address) of
                  localpart # _ # _ \<Rightarrow>
                    Some (if strip display = [] then localpart else strip display,
                          strip address)
                | _ \<Rightarrow> None)
           | _ \<Rightarrow> None)
      | _ \<Rightarrow> None)"

text \<open>The email of a raw string in lower case: what two strings of one identity share.\<close>

definition email_key :: "string \<Rightarrow> string option" where
  "email_key raw = map_option (\<lambda>(name, email). lower email) (parse_identity raw)"

record user_cache =
  by_string :: "string \<rightharpoonup> entity"
  by_email :: "(string \<times> entity) list"

definition new_cache :: user_cache where
  "new_cache = \<lparr>by_string = Map.empty, by_email = []\<rparr>"

definition cache_update :: "string \<Rightarrow> user_cache \<Rightarrow> user_cache" where
  "cache_update raw uc =
     (case parse_identity raw of
        None \<Rightarrow> uc
      | Some (name, email) \<Rightarrow>
          (case map_of (by_email uc) (lower email) of
             Some canonical \<Rightarrow> uc\<lparr>by_string := (by_string uc)(raw \<mapsto> canonical)\<rparr>
           | None \<Rightarrow>
               (let fresh = [''name'' \<mapsto> name, ''email'' \<mapsto> email]
                in uc\<lparr>by_string := (by_string uc)(raw \<mapsto> fresh),
                      by_email := by_email uc @ [(lower email, fresh)]\<rparr>)))"

definition cache_get :: "user_cache \<Rightarrow> string \<Rightarrow> entity option" where
  "cache_get uc raw = by_string uc raw"

definition cache_all :: "user_cache \<Rightarrow> entity list" where
  "cache_all uc = map snd (by_email uc)"

text \<open>An environment with this cache in the place of its own.\<close>

definition with_user_cache :: "('c, 's) env \<Rightarrow> (user_cache, 's) env" where
  "with_user_cache E =
     \<lparr>ROLES = ROLES E,
      party_choices = party_choices E,
      parse_blocks = parse_blocks E,
      UserCache = new_cache,
      uc_update = cache_update,
      uc_get = cache_get,
      uc_all = cache_all,
      sync_entity = sync_entity E,
      sync_nnr = sync_nnr E\<rparr>"

text \<open>
  The raw identity strings of the blocks, in the order in which \<^verbatim>\<open>build_user_cache\<close>
  meets them.
\<close>

definition block_identities :: "string list \<Rightarrow> string \<Rightarrow> block \<Rightarrow> string list" where
  "block_identities rs starter data =
     concat (map (field_values starter data) (block_roles rs starter data))"

definition identity_strings :: "string list \<Rightarrow> block list \<Rightarrow> block list \<Rightarrow> string list" where
  "identity_strings rs domains_data trees_data =
     concat (map (block_identities rs ''DOMAIN'') domains_data) @
     concat (map (block_identities rs ''TREE PATH'') trees_data)"

definition record_key :: "entity \<Rightarrow> string option" where
  "record_key u = map_option lower (u ''email'')"

text \<open>
  What holds of the cache after the strings \<open>seen\<close> have been registered: the emails of
  the canonical records differ, each record stands under its own email in lower case,
  every known string leads to the record of its email, and the emails and the known
  strings are those of the well-formed strings seen.
\<close>

definition cache_inv :: "string set \<Rightarrow> user_cache \<Rightarrow> bool" where
  "cache_inv seen uc =
     (distinct (map fst (by_email uc)) \<and>
      (\<forall>(k, u) \<in> set (by_email uc). record_key u = Some k) \<and>
      (\<forall>r u. by_string uc r = Some u \<longrightarrow>
             (\<exists>k. email_key r = Some k \<and> map_of (by_email uc) k = Some u)) \<and>
      fst ` set (by_email uc) = {k. \<exists>r\<in>seen. email_key r = Some k} \<and>
      dom (by_string uc) = {r \<in> seen. email_key r \<noteq> None})"

section \<open>The reconciliation engine of the specification\<close>

text \<open>
  Modelled from the spec: the loader of \<^verbatim>\<open>iris.etl.loader\<close> with its methods
  \<^verbatim>\<open>sync_entity\<close> and \<^verbatim>\<open>sync_nnr\<close>, and the store behind it, none of which is among
  the sources. The model follows section 4.3 of the specification.

  The store holds the rows of every table, each row a dictionary of fields, and for every
  pair of tables the edges of their relation. A row is known by its natural key: the
  values of the key fields that the models declare for its table. The key fields and the
  references of a table (a prefix of field names and the table it points to, as in
  \<^verbatim>\<open>domain__name\<close>) are not in the sources either and are arguments, the \<open>schema\<close>.
\<close>

type_synonym key = "string option list"

record schema =
  natural_key :: "table \<Rightarrow> string list"
  references :: "table \<Rightarrow> (string \<times> table) list"

record db =
  rows :: "table \<Rightarrow> entity list"
  edges :: "table \<times> table \<Rightarrow> (key \<times> key) set"

definition key_of :: "schema \<Rightarrow> table \<Rightarrow> entity \<Rightarrow> key" where
  "key_of sch tb d = map d (natural_key sch tb)"

definition has_row :: "schema \<Rightarrow> db \<Rightarrow> table \<Rightarrow> key \<Rightarrow> bool" where
  "has_row sch s tb k = list_ex (\<lambda>r. key_of sch tb r = k) (rows s tb)"

text \<open>
  Step 1 of \<^verbatim>\<open>sync_entity\<close>: a dotted path of a desired entity is resolved by the
  natural key of the table it points to, among the rows that table has now. An entity
  that has no field under the prefix of a reference has nothing to resolve there.
\<close>

definition under_prefix :: "string \<Rightarrow> entity \<Rightarrow> entity" where
  "under_prefix p d = (\<lambda>f. d (p @ ''__'' @ f))"

definition resolves :: "schema \<Rightarrow> db \<Rightarrow> table \<Rightarrow> entity \<Rightarrow> bool" where
  "resolves sch s tb d =
     list_all (\<lambda>(p, parent).
                 list_all (\<lambda>f. under_prefix p d f = None) (natural_key sch parent) \<or>
                 has_row sch s parent (key_of sch parent (under_prefix p d)))
              (references sch tb)"

text \<open>
  Steps 2 and 3: the keys of the desired entities and of the rows are compared. A row
  whose key is desired takes the fields of the desired entity and keeps its other fields;
  a desired key without a row gets a new row; the keys of the rows that are not desired
  are the candidates for deletion. Where a key is desired twice the last entity counts.
\<close>

definition latest :: "schema \<Rightarrow> table \<Rightarrow> entity list \<Rightarrow> key \<Rightarrow> entity option" where
  "latest sch tb desired k = find (\<lambda>d. key_of sch tb d = k) (rev desired)"

definition touch :: "schema \<Rightarrow> table \<Rightarrow> entity list \<Rightarrow> entity \<Rightarrow> entity" where
  "touch sch tb desired r =
     (case latest sch tb desired (key_of sch tb r) of None \<Rightarrow> r | Some d \<Rightarrow> r ++ d)"

definition upsert :: "schema \<Rightarrow> table \<Rightarrow> entity list \<Rightarrow> entity list \<Rightarrow> entity list" where
  "upsert sch tb desired old =
     map (touch sch tb desired) old @
     List.map_filter (latest sch tb desired)
       (remdups (filter (\<lambda>k. k \<notin> key_of sch tb ` set old) (map (key_of sch tb) desired)))"

definition candidates :: "schema \<Rightarrow> table \<Rightarrow> entity list \<Rightarrow> entity list \<Rightarrow> key list" where
  "candidates sch tb desired old =
     filter (\<lambda>k. k \<notin> set (map (key_of sch tb) desired)) (map (key_of sch tb) old)"

text \<open>
  Step 4: the deferred deletion removes the rows of the candidate keys, and only those.
\<close>

definition keep :: "schema \<Rightarrow> table \<Rightarrow> key list \<Rightarrow> entity list \<Rightarrow> entity list" where
  "keep sch tb cands rs = filter (\<lambda>r. key_of sch tb r \<notin> set cands) rs"

definition store_delete :: "schema \<Rightarrow> table \<Rightarrow> key list \<Rightarrow> (unit, db) io" where
  "store_delete sch tb cands =
     (\<lambda>s. (Inr (), s\<lparr>rows := (rows s)(tb := keep sch tb cands (rows s tb))\<rparr>))"

definition all_resolve :: "schema \<Rightarrow> db \<Rightarrow> table \<Rightarrow> entity list \<Rightarrow> bool" where
  "all_resolve sch s tb desired = list_all (resolves sch s tb) desired"

definition store_sync_entity ::
  "schema \<Rightarrow> entity list \<Rightarrow> table \<Rightarrow> ((unit, db) io, db) io" where
  "store_sync_entity sch desired tb =
     (\<lambda>s. if all_resolve sch s tb desired
          then (Inr (store_delete sch tb (candidates sch tb desired (rows s tb))),
                s\<lparr>rows := (rows s)(tb := upsert sch tb desired (rows s tb))\<rparr>)
          else (Inl DanglingReference, s))"

text \<open>
  \<^verbatim>\<open>sync_nnr\<close>: both sides of every pair are resolved by natural key. The edges of the
  owners named in the pairs are replaced by the desired edges, at once; the edges of
  other owners stay.
\<close>

definition wanted_edges :: "schema \<Rightarrow> table \<Rightarrow> table \<Rightarrow> pair list \<Rightarrow> (key \<times> key) set" where
  "wanted_edges sch ta tb ps = set (map (\<lambda>(a, b). (key_of sch ta a, key_of sch tb b)) ps)"

definition relink ::
  "schema \<Rightarrow> table \<Rightarrow> table \<Rightarrow> pair list \<Rightarrow> (key \<times> key) set \<Rightarrow> (key \<times> key) set" where
  "relink sch ta tb ps old =
     {e \<in> old. fst e \<notin> fst ` wanted_edges sch ta tb ps} \<union> wanted_edges sch ta tb ps"

definition pairs_resolve :: "schema \<Rightarrow> db \<Rightarrow> table \<Rightarrow> table \<Rightarrow> pair list \<Rightarrow> bool" where
  "pairs_resolve sch s ta tb ps =
     list_all (\<lambda>(a, b). has_row sch s ta (key_of sch ta a) \<and>
                         has_row sch s tb (key_of sch tb b)) ps"

definition store_sync_nnr :: "schema \<Rightarrow> pair list \<Rightarrow> table \<Rightarrow> table \<Rightarrow> (unit, db) io" where
  "store_sync_nnr sch ps ta tb =
     (\<lambda>s. if pairs_resolve sch s ta tb ps
          then (Inr (), s\<lparr>edges := (edges s)((ta, tb) := relink sch ta tb ps (edges s (ta, tb)))\<rparr>)
          else (Inl DanglingReference, s))"

text \<open>
  An environment that loads into this store. Its parser is any function of the text that
  does not touch the store; the roles, the party choices and the cache are those of \<open>E\<close>.
\<close>

definition with_store ::
  "schema \<Rightarrow> (string \<Rightarrow> string \<Rightarrow> (string \<times> string) list \<Rightarrow> error + block list) \<Rightarrow>
   ('c, 's) env \<Rightarrow> ('c, db) env" where
  "with_store sch parser E =
     \<lparr>ROLES = ROLES E,
      party_choices = party_choices E,
      parse_blocks = (\<lambda>txt starter m. pureE (parser txt starter m)),
      UserCache = UserCache E,
      uc_update = uc_update E,
      uc_get = uc_get E,
      uc_all = uc_all E,
      sync_entity = store_sync_entity sch,
      sync_nnr = store_sync_nnr sch\<rparr>"

text \<open>
  The load of \<^verbatim>\<open>from_unicode\<close> seen from the store: a list of steps, run one after the
  other until one raises. A deferred deletion uses the candidates that the sync of its
  table left for it (\<open>pending\<close>).
\<close>

datatype step = Sync table "entity list" | Nnr "pair list" table table | Del table

fun run_steps :: "schema \<Rightarrow> step list \<Rightarrow> (table \<Rightarrow> key list) \<Rightarrow> db \<Rightarrow> db" where
  "run_steps sch [] pending s = s"
| "run_steps sch (Sync tb desired # rest) pending s =
     (if all_resolve sch s tb desired
      then run_steps sch rest (pending(tb := candidates sch tb desired (rows s tb)))
             (s\<lparr>rows := (rows s)(tb := upsert sch tb desired (rows s tb))\<rparr>)
      else s)"
| "run_steps sch (Nnr ps ta tb # rest) pending s =
     (if pairs_resolve sch s ta tb ps
      then run_steps sch rest pending
             (s\<lparr>edges := (edges s)((ta, tb) := relink sch ta tb ps (edges s (ta, tb)))\<rparr>)
      else s)"
| "run_steps sch (Del tb # rest) pending s =
     run_steps sch rest pending
       (s\<lparr>rows := (rows s)(tb := keep sch tb (pending tb) (rows s tb))\<rparr>)"

definition load_steps ::
  "entity list \<Rightarrow> domains_out \<Rightarrow> trees_out \<Rightarrow> entity list \<Rightarrow> pair list \<Rightarrow> step list" where
  "load_steps users d t parties party_users =
     [Sync User users, Sync Domain (domains d), Sync SubDomain (subdomains d),
      Sync DomainRole (domainroles d), Sync SubDomainRole (subdomainroles d),
      Sync GitTree (trees t), Sync GitTreeRole (treeroles t), Sync UserParty parties,
      Nnr (domainrole_users d) DomainRole User,
      Nnr (subdomainrole_users d) SubDomainRole User,
      Nnr (tree_licenses t) GitTree License,
      Nnr (treerole_users t) GitTreeRole User,
      Nnr party_users UserParty User,
      Del UserParty, Del GitTreeRole, Del SubDomainRole, Del DomainRole,
      Del GitTree, Del SubDomain, Del Domain]"

text \<open>
  \<open>at_rest sch s pending steps\<close>: run from \<open>s\<close>, every step either raises or leaves
  \<open>s\<close> as it is.
\<close>

fun at_rest :: "schema \<Rightarrow> db \<Rightarrow> (table \<Rightarrow> key list) \<Rightarrow> step list \<Rightarrow> bool" where
  "at_rest sch s pending [] = True"
| "at_rest sch s pending (Sync tb desired # rest) =
     (all_resolve sch s tb desired \<longrightarrow>
        upsert sch tb desired (rows s tb) = rows s tb \<and>
        at_rest sch s (pending(tb := candidates sch tb desired (rows s tb))) rest)"
| "at_rest sch s pending (Nnr ps ta tb # rest) =
     (pairs_resolve sch s ta tb ps \<longrightarrow>
        relink sch ta tb ps (edges s (ta, tb)) = edges s (ta, tb) \<and>
        at_rest sch s pending rest)"
| "at_rest sch s pending (Del tb # rest) =
     (keep sch tb (pending tb) (rows s tb) = rows s tb \<and> at_rest sch s pending rest)"

text \<open>
  A schema and a parser to run the model on: every table is keyed by \<^verbatim>\<open>name\<close> but
  the ones named here, a subdomain refers to its domain, and the parser takes the whole
  domain text as the name of one domain block and finds no tree.
\<close>

definition sample_schema :: schema where
  "sample_schema =
     \<lparr>natural_key = (\<lambda>tb. if tb = SubDomain then [''name'', ''domain__name'']
                           else if tb = User then [''email'']
                           else if tb = GitTree then [''gitpath'']
                           else [''name'']),
      references = (\<lambda>tb. if tb = SubDomain then [(''domain'', Domain)] else [])\<rparr>"

definition one_domain_parser ::
  "string \<Rightarrow> string \<Rightarrow> (string \<times> string) list \<Rightarrow> error + block list" where
  "one_domain_parser txt starter m =
     Inr (if starter = ''D'' then [\<lparr>head_value = txt, others = Map.empty\<rparr>] else [])"

definition stale_store :: db where
  "stale_store = \<lparr>rows = (\<lambda>tb. if tb = Domain then [[''name'' \<mapsto> ''Old'']] else []),
                  edges = (\<lambda>r. {})\<rparr>"
section \<open>Facts about the string functions\<close>

lemma endswith_suffix: "endswith s suf = suffix suf s"
proof
  assume "endswith s suf"
  then have "s = take (length s - length suf) s @ suf"
    by (metis append_take_drop_id endswith_def)
  then show "suffix suf s"
    by (metis suffixI)
next
  assume "suffix suf s"
  then obtain zs where "s = zs @ suf"
    by (auto simp: suffix_def)
  then show "endswith s suf"
    by (simp add: endswith_def)
qed

lemma split1_at:
  "CHR ''@'' \<notin> set a \<Longrightarrow> split1 CHR ''@'' (a @ CHR ''@'' # d) = [a, d]"
  by (induction a) (auto simp: split1_def)

lemma split1_none: "c \<notin> set s \<Longrightarrow> split1 c s = [s]"
  by (simp add: split1_def)

lemma split1_decomp:
  assumes "c \<in> set s"
  shows "\<exists>a d. s = a @ c # d \<and> c \<notin> set a \<and> split1 c s = [a, d]"
proof -
  let ?a = "takeWhile (\<lambda>x. x \<noteq> c) s" and ?r = "dropWhile (\<lambda>x. x \<noteq> c) s"
  have r: "?r \<noteq> []" using assms by simp
  then have h: "hd ?r = c" using hd_dropWhile [of "\<lambda>x. x \<noteq> c" s] by auto
  have "s = ?a @ ?r" by simp
  also have "?r = c # tl ?r" using r h by (metis list.collapse)
  finally have "s = ?a @ c # tl ?r" .
  moreover have "c \<notin> set ?a" by (auto dest: set_takeWhileD)
  moreover have "split1 c s = [?a, tl ?r]" using assms by (simp add: split1_def)
  ultimately show ?thesis by blast
qed

section \<open>Facts about the parties\<close>

lemma email_party_at:
  "CHR ''@'' \<notin> set a \<Longrightarrow> email_party (a @ CHR ''@'' # d) = Inr (party_by_suffix d)"
  by (simp add: email_party_def split1_at party_by_suffix_def endswith_suffix)

lemma email_party_no_at: "CHR ''@'' \<notin> set e \<Longrightarrow> email_party e = Inl IndexError"
  by (simp add: email_party_def split1_none)

lemma email_party_Inr:
  assumes "email_party e = Inr p"
  shows "\<exists>a d. e = a @ CHR ''@'' # d \<and> CHR ''@'' \<notin> set a \<and> p = party_by_suffix d"
proof (cases "CHR ''@'' \<in> set e")
  case True
  then obtain a d where "e = a @ CHR ''@'' # d" "CHR ''@'' \<notin> set a"
    using split1_decomp by blast
  with assms show ?thesis by (auto simp: email_party_at)
next
  case False
  with assms show ?thesis by (simp add: email_party_no_at)
qed

lemma email_party_total:
  "CHR ''@'' \<in> set e \<Longrightarrow> \<exists>p. email_party e = Inr p"
  using split1_decomp [of "CHR ''@''" e] by (auto simp: email_party_at)

lemma party_users_loop_Inr:
  "party_users_loop users acc = Inr pus \<Longrightarrow>
   \<exists>new. pus = acc @ new \<and> length new = length users \<and>
     (\<forall>i<length users. \<exists>a d. (users ! i) ''email'' = Some (a @ CHR ''@'' # d) \<and>
         CHR ''@'' \<notin> set a \<and> new ! i = ([''party'' \<mapsto> party_by_suffix d], users ! i))"
proof (induction users arbitrary: acc)
  case Nil
  then show ?case by simp
next
  case (Cons u us)
  from Cons.prems obtain e p where e: "u ''email'' = Some e" and p: "email_party e = Inr p"
    and rest: "party_users_loop us (acc @ [([''party'' \<mapsto> p], u)]) = Inr pus"
    by (auto split: option.splits sum.splits)
  from email_party_Inr [OF p] obtain a d where
    ad: "e = a @ CHR ''@'' # d" "CHR ''@'' \<notin> set a" "p = party_by_suffix d" by blast
  from Cons.IH [OF rest] obtain new where
    new: "pus = (acc @ [([''party'' \<mapsto> p], u)]) @ new" "length new = length us"
    and each: "\<forall>i<length us. \<exists>a d. (us ! i) ''email'' = Some (a @ CHR ''@'' # d) \<and>
         CHR ''@'' \<notin> set a \<and> new ! i = ([''party'' \<mapsto> party_by_suffix d], us ! i)"
    by blast
  let ?new = "([''party'' \<mapsto> p], u) # new"
  have "pus = acc @ ?new" using new by simp
  moreover have "length ?new = length (u # us)" using new by simp
  moreover have "\<forall>i<length (u # us). \<exists>a d. ((u # us) ! i) ''email'' = Some (a @ CHR ''@'' # d) \<and>
         CHR ''@'' \<notin> set a \<and> ?new ! i = ([''party'' \<mapsto> party_by_suffix d], (u # us) ! i)"
  proof (intro allI impI)
    fix i assume "i < length (u # us)"
    show "\<exists>a d. ((u # us) ! i) ''email'' = Some (a @ CHR ''@'' # d) \<and>
         CHR ''@'' \<notin> set a \<and> ?new ! i = ([''party'' \<mapsto> party_by_suffix d], (u # us) ! i)"
    proof (cases i)
      case 0
      then show ?thesis using e ad by auto
    next
      case (Suc j)
      then have "j < length us" using \<open>i < length (u # us)\<close> by simp
      with each Suc show ?thesis by simp
    qed
  qed
  ultimately show ?case by blast
qed

lemma party_users_loop_ok:
  "list_all email_ok users \<Longrightarrow> \<exists>pus. party_users_loop users acc = Inr pus"
proof (induction users arbitrary: acc)
  case Nil
  then show ?case by simp
next
  case (Cons u us)
  from Cons.prems obtain e where e: "u ''email'' = Some e" "CHR ''@'' \<in> set e"
    by (auto simp: email_ok_def split: option.splits)
  then obtain p where "email_party e = Inr p"
    using email_party_total by blast
  with e Cons show ?case by simp
qed

lemma party_users_loop_fails:
  "list_all email_ok us \<Longrightarrow> u ''email'' = Some e \<Longrightarrow> CHR ''@'' \<notin> set e \<Longrightarrow>
   party_users_loop (us @ u # rest) acc = Inl IndexError"
proof (induction us arbitrary: acc)
  case Nil
  then show ?case by (simp add: email_party_no_at)
next
  case (Cons v vs)
  from Cons.prems(1) obtain e' where e': "v ''email'' = Some e'" "CHR ''@'' \<in> set e'"
    by (auto simp: email_ok_def split: option.splits)
  then obtain p where "email_party e' = Inr p"
    using email_party_total by blast
  with e' Cons show ?case by simp
qed

lemma lower_samples:
  "lower ''Intel.COM'' = ''intel.com''"
  "lower ''x.org'' = ''x.org''"
  "lower ''Samsung.com'' = ''samsung.com''"
  by code_simp+

lemma party_samples:
  "party_by_suffix ''Intel.COM'' = ''INTEL''"
  "party_by_suffix ''x.org'' = ''TIZEN''"
  "party_by_suffix ''Samsung.com'' = ''SAMSUNG''"
  by code_simp+

lemma email_party_samples:
  "email_party ''a@Intel.COM'' = Inr ''INTEL''"
  "email_party ''b@x.org'' = Inr ''TIZEN''"
  "email_party ''c@Samsung.com'' = Inr ''SAMSUNG''"
  "email_party ''root'' = Inl IndexError"
  by code_simp+

text \<open>
  Claim C7. Where \<^verbatim>\<open>transform_parties\<close> returns, it has made one pair for every user, in
  the order of the users, and the party of the pair follows the suffix rule on the part of
  the user's email after the first \<^verbatim>\<open>@\<close>: \<^verbatim>\<open>INTEL\<close> when that part, in lower case,
  ends with \<^verbatim>\<open>intel.com\<close>, \<^verbatim>\<open>SAMSUNG\<close> when it ends with \<^verbatim>\<open>samsung.com\<close>, and
  \<^verbatim>\<open>TIZEN\<close> otherwise.
\<close>

theorem transform_parties_suffix_rule:
  assumes "transform_parties choices users = Inr (parties, party_users)"
  shows "length party_users = length users \<and>
    (\<forall>i<length users. \<exists>a d. (users ! i) ''email'' = Some (a @ CHR ''@'' # d) \<and>
        CHR ''@'' \<notin> set a \<and>
        party_users ! i = ([''party'' \<mapsto> party_by_suffix d], users ! i))"
proof -
  from assms have "party_users_loop users [] = Inr party_users"
    by (auto simp: transform_parties_def split: sum.splits)
  from party_users_loop_Inr [OF this] show ?thesis by simp
qed

theorem transform_parties_suffix_rule_witness:
  "transform_parties [(''INTEL'', ''Intel'')]
     [[''email'' \<mapsto> ''a@Intel.COM''], [''email'' \<mapsto> ''c@Samsung.com''],
      [''email'' \<mapsto> ''b@x.org'']] =
   Inr ([[''party'' \<mapsto> ''INTEL'', ''name'' \<mapsto> ''Intel'']],
        [([''party'' \<mapsto> ''INTEL''], [''email'' \<mapsto> ''a@Intel.COM'']),
         ([''party'' \<mapsto> ''SAMSUNG''], [''email'' \<mapsto> ''c@Samsung.com'']),
         ([''party'' \<mapsto> ''TIZEN''], [''email'' \<mapsto> ''b@x.org''])]) \<and>
   length [([''party'' \<mapsto> ''INTEL''], [''email'' \<mapsto> ''a@Intel.COM'']),
         ([''party'' \<mapsto> ''SAMSUNG''], [''email'' \<mapsto> ''c@Samsung.com'']),
         ([''party'' \<mapsto> ''TIZEN''], [''email'' \<mapsto> ''b@x.org''])] = (3::nat)"
proof -
  have run: "transform_parties [(''INTEL'', ''Intel'')]
     [[''email'' \<mapsto> ''a@Intel.COM''], [''email'' \<mapsto> ''c@Samsung.com''],
      [''email'' \<mapsto> ''b@x.org'']] =
   Inr ([[''party'' \<mapsto> ''INTEL'', ''name'' \<mapsto> ''Intel'']],
        [([''party'' \<mapsto> ''INTEL''], [''email'' \<mapsto> ''a@Intel.COM'']),
         ([''party'' \<mapsto> ''SAMSUNG''], [''email'' \<mapsto> ''c@Samsung.com'']),
         ([''party'' \<mapsto> ''TIZEN''], [''email'' \<mapsto> ''b@x.org''])])"
    by (simp add: transform_parties_def email_party_samples)
  from transform_parties_suffix_rule [OF run] show ?thesis using run by simp
qed

text \<open>
  Claim C10. \<^verbatim>\<open>transform_parties\<close> returns for every list of users whose emails all
  contain \<^verbatim>\<open>@\<close>; at the first user whose email has no \<^verbatim>\<open>@\<close> the access
  \<^verbatim>\<open>split('@', 1)[1]\<close> is out of range and the function raises \<^verbatim>\<open>IndexError\<close>.
\<close>

theorem transform_parties_total_iff_at:
  "(list_all email_ok users \<longrightarrow> (\<exists>r. transform_parties choices users = Inr r)) \<and>
   (list_all email_ok us \<and> u ''email'' = Some e \<and> CHR ''@'' \<notin> set e \<longrightarrow>
      transform_parties choices (us @ u # rest) = Inl IndexError)"
proof (intro conjI impI)
  assume "list_all email_ok users"
  then obtain pus where "party_users_loop users [] = Inr pus"
    using party_users_loop_ok by blast
  then show "\<exists>r. transform_parties choices users = Inr r"
    by (simp add: transform_parties_def)
next
  assume "list_all email_ok us \<and> u ''email'' = Some e \<and> CHR ''@'' \<notin> set e"
  then have "party_users_loop (us @ u # rest) [] = Inl IndexError"
    using party_users_loop_fails by blast
  then show "transform_parties choices (us @ u # rest) = Inl IndexError"
    by (simp add: transform_parties_def)
qed

theorem transform_parties_total_iff_at_witness:
  "list_all email_ok [[''email'' \<mapsto> ''a@Intel.COM'']] \<and>
   (\<exists>r. transform_parties [] [[''email'' \<mapsto> ''a@Intel.COM'']] = Inr r) \<and>
   [''email'' \<mapsto> ''root''] ''email'' = Some ''root'' \<and> CHR ''@'' \<notin> set ''root'' \<and>
   transform_parties [] ([[''email'' \<mapsto> ''a@Intel.COM'']] @ [''email'' \<mapsto> ''root''] # []) =
     Inl IndexError"
proof -
  have ok: "list_all email_ok [[''email'' \<mapsto> ''a@Intel.COM'']]"
    by (simp add: email_ok_def)
  have bad: "[''email'' \<mapsto> ''root''] ''email'' = Some ''root''" "CHR ''@'' \<notin> set ''root''"
    by simp_all
  from transform_parties_total_iff_at
    [of "[[''email'' \<mapsto> ''a@Intel.COM'']]" "[]" "[[''email'' \<mapsto> ''a@Intel.COM'']]"
        "[''email'' \<mapsto> ''root'']" "''root''" "[]"]
  show ?thesis using ok bad by blast
qed

section \<open>Facts about the domains\<close>

lemma strip_samples: "strip ''x '' = ''x''" "strip '' '' = ''''" "strip '''' = ''''"
  by code_simp+

lemma parse_name_no_slash:
  "CHR ''/'' \<notin> set v \<Longrightarrow>
   parse_name v = (if strip v = [] then NONAME else strip v, NONAME)"
  by (simp add: parse_name_def split1_none)

lemma trans_subdomain_fields:
  "domains (trans_subdomain rs get data st) = domains st"
  "subdomains (trans_subdomain rs get data st) =
     subdomains st @ [[''name'' \<mapsto> snd (parse_name (head_value data)),
                       ''domain__name'' \<mapsto> fst (parse_name (head_value data))]]"
proof -
  have a: "\<And>st f. domains (fold (\<lambda>role st. st\<lparr>subdomainroles := f role st,
                subdomainrole_users := g role st\<rparr>) xs st) = domains st" for xs g
    by (induction xs) simp_all
  have b: "\<And>st f. subdomains (fold (\<lambda>role st. st\<lparr>subdomainroles := f role st,
                subdomainrole_users := g role st\<rparr>) xs st) = subdomains st" for xs g
    by (induction xs) simp_all
  show "domains (trans_subdomain rs get data st) = domains st"
    by (simp add: trans_subdomain_def Let_def a split: prod.splits)
  show "subdomains (trans_subdomain rs get data st) =
     subdomains st @ [[''name'' \<mapsto> snd (parse_name (head_value data)),
                       ''domain__name'' \<mapsto> fst (parse_name (head_value data))]]"
    by (simp add: trans_subdomain_def Let_def b split: prod.splits)
qed

lemma trans_domain_fields:
  "domains (trans_domain rs get data st) = domains st @ [[''name'' \<mapsto> head_value data]]"
  "subdomains (trans_domain rs get data st) = subdomains st"
proof -
  have a: "\<And>st f. domains (fold (\<lambda>role st. st\<lparr>domainroles := f role st,
                domainrole_users := g role st\<rparr>) xs st) = domains st" for xs g
    by (induction xs) simp_all
  have b: "\<And>st f. subdomains (fold (\<lambda>role st. st\<lparr>domainroles := f role st,
                domainrole_users := g role st\<rparr>) xs st) = subdomains st" for xs g
    by (induction xs) simp_all
  show "domains (trans_domain rs get data st) = domains st @ [[''name'' \<mapsto> head_value data]]"
    by (simp add: trans_domain_def Let_def a)
  show "subdomains (trans_domain rs get data st) = subdomains st"
    by (simp add: trans_domain_def Let_def b)
qed

lemma domains_fold:
  "domains (fold (domain_step rs get) blocks st) =
   domains st @ map (\<lambda>data. [''name'' \<mapsto> head_value data])
                    (filter (\<lambda>data. \<not> has_key ''DOMAIN'' data ''PARENT'') blocks)"
  by (induction blocks arbitrary: st)
     (simp_all add: domain_step_def trans_subdomain_fields trans_domain_fields)

lemma subdomains_fold:
  "subdomains (fold (domain_step rs get) blocks st) =
   subdomains st @ map (\<lambda>data. [''name'' \<mapsto> snd (parse_name (head_value data)),
                                 ''domain__name'' \<mapsto> fst (parse_name (head_value data))])
                       (filter (\<lambda>data. has_key ''DOMAIN'' data ''PARENT'') blocks)"
  by (induction blocks arbitrary: st)
     (simp_all add: domain_step_def trans_subdomain_fields trans_domain_fields)

lemma uncategorized_subdomains_named:
  "list_all (\<lambda>d. d ''name'' \<noteq> None) ds \<Longrightarrow>
   uncategorized_subdomains ds subs =
     Inr (subs @ map (\<lambda>d. [''name'' \<mapsto> NONAME, ''domain__name'' \<mapsto> the (d ''name'')]) ds)"
  by (induction ds arbitrary: subs) auto

lemma transform_domains_eq:
  "transform_domains rs blocks get =
     (let st1 = fold (domain_step rs get) blocks
                  \<lparr>domains = [[''name'' \<mapsto> NONAME]], subdomains = [],
                   domainroles = [], subdomainroles = [],
                   domainrole_users = [], subdomainrole_users = []\<rparr>
      in Inr (st1\<lparr>subdomains := subdomains st1 @
                map (\<lambda>d. [''name'' \<mapsto> NONAME, ''domain__name'' \<mapsto> the (d ''name'')])
                    (domains st1)\<rparr>))"
proof -
  let ?st0 = "\<lparr>domains = [[''name'' \<mapsto> NONAME]], subdomains = [],
                   domainroles = [], subdomainroles = [],
                   domainrole_users = [], subdomainrole_users = []\<rparr>"
  let ?st1 = "fold (domain_step rs get) blocks ?st0"
  have "list_all (\<lambda>d. d ''name'' \<noteq> None) (domains ?st1)"
    by (simp add: domains_fold list_all_iff)
  from uncategorized_subdomains_named [OF this]
  show ?thesis
    by (simp add: transform_domains_def Let_def)
qed

text \<open>
  Claim C9, as amended. \<^verbatim>\<open>transform_domains\<close> returns for every input, the empty
  list of blocks too. Its output has a domain named \<^verbatim>\<open>Uncategorized\<close> and, for every
  domain of the output, a subdomain named \<^verbatim>\<open>Uncategorized\<close> under that domain. A
  subdomain block whose \<^verbatim>\<open>DOMAIN\<close> value has no \<^verbatim>\<open>/\<close> is placed, through
  \<^verbatim>\<open>parse_name\<close>, under that value stripped of the white space around it, with the
  subdomain \<^verbatim>\<open>Uncategorized\<close>; a value that is empty after stripping gives the domain
  \<^verbatim>\<open>Uncategorized\<close>.
\<close>

theorem transform_domains_uncategorized:
  "\<exists>out. transform_domains rs blocks get = Inr out \<and>
     [''name'' \<mapsto> NONAME] \<in> set (domains out) \<and>
     (\<forall>d \<in> set (domains out). \<exists>n. d ''name'' = Some n \<and>
         [''name'' \<mapsto> NONAME, ''domain__name'' \<mapsto> n] \<in> set (subdomains out)) \<and>
     (\<forall>data \<in> set blocks.
         has_key ''DOMAIN'' data ''PARENT'' \<and> CHR ''/'' \<notin> set (head_value data) \<longrightarrow>
         parse_name (head_value data) =
           (if strip (head_value data) = [] then NONAME else strip (head_value data), NONAME) \<and>
         [''name'' \<mapsto> NONAME,
          ''domain__name'' \<mapsto>
             (if strip (head_value data) = [] then NONAME else strip (head_value data))]
           \<in> set (subdomains out))"
proof -
  let ?st0 = "\<lparr>domains = [[''name'' \<mapsto> NONAME]], subdomains = [],
                   domainroles = [], subdomainroles = [],
                   domainrole_users = [], subdomainrole_users = []\<rparr>"
  let ?st1 = "fold (domain_step rs get) blocks ?st0"
  let ?unc = "\<lambda>d::entity. [''name'' \<mapsto> NONAME, ''domain__name'' \<mapsto> the (d ''name'')]"
  let ?out = "?st1\<lparr>subdomains := subdomains ?st1 @ map ?unc (domains ?st1)\<rparr>"
  have run: "transform_domains rs blocks get = Inr ?out"
    by (simp add: transform_domains_eq Let_def)
  have doms: "domains ?out = [''name'' \<mapsto> NONAME] #
      map (\<lambda>data. [''name'' \<mapsto> head_value data])
          (filter (\<lambda>data. \<not> has_key ''DOMAIN'' data ''PARENT'') blocks)"
    by (simp add: domains_fold)
  have subs: "subdomains ?out =
      map (\<lambda>data. [''name'' \<mapsto> snd (parse_name (head_value data)),
                    ''domain__name'' \<mapsto> fst (parse_name (head_value data))])
          (filter (\<lambda>data. has_key ''DOMAIN'' data ''PARENT'') blocks) @
      map ?unc (domains ?out)"
    by (simp add: subdomains_fold)
  have 1: "[''name'' \<mapsto> NONAME] \<in> set (domains ?out)"
    by (simp add: doms)
  have 2: "\<forall>d \<in> set (domains ?out). \<exists>n. d ''name'' = Some n \<and>
         [''name'' \<mapsto> NONAME, ''domain__name'' \<mapsto> n] \<in> set (subdomains ?out)"
  proof
    fix d assume d: "d \<in> set (domains ?out)"
    then obtain n where n: "d ''name'' = Some n"
      unfolding doms by auto
    from d have "?unc d \<in> set (subdomains ?out)"
      unfolding subs by simp
    with n show "\<exists>n. d ''name'' = Some n \<and>
         [''name'' \<mapsto> NONAME, ''domain__name'' \<mapsto> n] \<in> set (subdomains ?out)"
      by simp
  qed
  have 3: "\<forall>data \<in> set blocks.
         has_key ''DOMAIN'' data ''PARENT'' \<and> CHR ''/'' \<notin> set (head_value data) \<longrightarrow>
         parse_name (head_value data) =
           (if strip (head_value data) = [] then NONAME else strip (head_value data), NONAME) \<and>
         [''name'' \<mapsto> NONAME,
          ''domain__name'' \<mapsto>
             (if strip (head_value data) = [] then NONAME else strip (head_value data))]
           \<in> set (subdomains ?out)"
  proof (intro ballI impI)
    fix data assume data: "data \<in> set blocks"
      and h: "has_key ''DOMAIN'' data ''PARENT'' \<and> CHR ''/'' \<notin> set (head_value data)"
    let ?dn = "if strip (head_value data) = [] then NONAME else strip (head_value data)"
    from h have pn: "parse_name (head_value data) = (?dn, NONAME)"
      by (simp add: parse_name_no_slash)
    have "[''name'' \<mapsto> snd (parse_name (head_value data)),
           ''domain__name'' \<mapsto> fst (parse_name (head_value data))] \<in> set (subdomains ?out)"
      unfolding subs using data h by auto
    then have "[''name'' \<mapsto> NONAME, ''domain__name'' \<mapsto> ?dn] \<in> set (subdomains ?out)"
      unfolding pn by simp
    with pn show "parse_name (head_value data) = (?dn, NONAME) \<and>
         [''name'' \<mapsto> NONAME, ''domain__name'' \<mapsto> ?dn] \<in> set (subdomains ?out)"
      by simp
  qed
  from run 1 2 3 show ?thesis by blast
qed

text \<open>
  The claim as it was written puts the subdomain under the value itself. The value
  \<^verbatim>\<open>x\<close> followed by a space has no \<^verbatim>\<open>/\<close> and is not empty; its subdomain is placed
  under \<^verbatim>\<open>x\<close>, and no subdomain of the output is under the value as it was given.
\<close>

theorem parse_name_keeps_value_counterexample:
  "has_key ''DOMAIN'' \<lparr>head_value = ''x '', others = [''PARENT'' \<mapsto> [''p'']]\<rparr> ''PARENT'' \<and>
   CHR ''/'' \<notin> set ''x '' \<and> ''x '' \<noteq> [] \<and>
   parse_name ''x '' = (''x'', NONAME) \<and>
   transform_domains [] [\<lparr>head_value = ''x '', others = [''PARENT'' \<mapsto> [''p'']]\<rparr>] (\<lambda>_. None) =
     Inr \<lparr>domains = [[''name'' \<mapsto> NONAME]],
          subdomains = [[''name'' \<mapsto> NONAME, ''domain__name'' \<mapsto> ''x''],
                        [''name'' \<mapsto> NONAME, ''domain__name'' \<mapsto> NONAME]],
          domainroles = [], subdomainroles = [],
          domainrole_users = [], subdomainrole_users = []\<rparr> \<and>
   [''name'' \<mapsto> NONAME, ''domain__name'' \<mapsto> ''x ''] \<notin>
     set [[''name'' \<mapsto> NONAME, ''domain__name'' \<mapsto> ''x''],
          [''name'' \<mapsto> NONAME, ''domain__name'' \<mapsto> NONAME]]"
proof -
  have pn: "parse_name ''x '' = (''x'', NONAME)"
    by (simp add: parse_name_no_slash strip_samples)
  have run: "transform_domains [] [\<lparr>head_value = ''x '', others = [''PARENT'' \<mapsto> [''p'']]\<rparr>] (\<lambda>_. None) =
     Inr \<lparr>domains = [[''name'' \<mapsto> NONAME]],
          subdomains = [[''name'' \<mapsto> NONAME, ''domain__name'' \<mapsto> ''x''],
                        [''name'' \<mapsto> NONAME, ''domain__name'' \<mapsto> NONAME]],
          domainroles = [], subdomainroles = [],
          domainrole_users = [], subdomainrole_users = []\<rparr>"
    by (simp add: transform_domains_def domain_step_def has_key_def trans_subdomain_def
          block_roles_def pn)
  have ne: "[''name'' \<mapsto> NONAME, ''domain__name'' \<mapsto> ''x ''] \<notin>
     set [[''name'' \<mapsto> NONAME, ''domain__name'' \<mapsto> ''x''],
          [''name'' \<mapsto> NONAME, ''domain__name'' \<mapsto> NONAME]]"
    by (auto simp: NONAME_def dest: map_upd_eqD1)
  show ?thesis using pn run ne by (simp add: has_key_def)
qed


theorem transform_domains_uncategorized_witness:
  "has_key ''DOMAIN'' \<lparr>head_value = ''x '', others = [''PARENT'' \<mapsto> [''p'']]\<rparr> ''PARENT'' \<and>
   CHR ''/'' \<notin> set ''x '' \<and>
   (\<exists>out. transform_domains [] [\<lparr>head_value = ''x '', others = [''PARENT'' \<mapsto> [''p'']]\<rparr>]
              (\<lambda>_. None) = Inr out \<and>
      [''name'' \<mapsto> NONAME] \<in> set (domains out) \<and>
      [''name'' \<mapsto> NONAME, ''domain__name'' \<mapsto> NONAME] \<in> set (subdomains out) \<and>
      [''name'' \<mapsto> NONAME, ''domain__name'' \<mapsto> ''x''] \<in> set (subdomains out))"
proof -
  let ?b = "\<lparr>head_value = ''x '', others = [''PARENT'' \<mapsto> [''p'']]\<rparr>"
  have h: "has_key ''DOMAIN'' ?b ''PARENT''" "CHR ''/'' \<notin> set ''x ''"
    by (simp_all add: has_key_def)
  from transform_domains_uncategorized [of "[]" "[?b]" "\<lambda>_. None"]
  obtain out where out: "transform_domains [] [?b] (\<lambda>_. None) = Inr out"
    and 1: "[''name'' \<mapsto> NONAME] \<in> set (domains out)"
    and 2: "\<forall>d \<in> set (domains out). \<exists>n. d ''name'' = Some n \<and>
         [''name'' \<mapsto> NONAME, ''domain__name'' \<mapsto> n] \<in> set (subdomains out)"
    and 3: "\<forall>data \<in> set [?b].
         has_key ''DOMAIN'' data ''PARENT'' \<and> CHR ''/'' \<notin> set (head_value data) \<longrightarrow>
         parse_name (head_value data) =
           (if strip (head_value data) = [] then NONAME else strip (head_value data), NONAME) \<and>
         [''name'' \<mapsto> NONAME,
          ''domain__name'' \<mapsto>
             (if strip (head_value data) = [] then NONAME else strip (head_value data))]
           \<in> set (subdomains out)"
    by blast
  from 2 1 have a: "[''name'' \<mapsto> NONAME, ''domain__name'' \<mapsto> NONAME] \<in> set (subdomains out)"
    by fastforce
  from 3 h have b: "[''name'' \<mapsto> NONAME, ''domain__name'' \<mapsto> ''x''] \<in> set (subdomains out)"
    by (simp add: strip_samples)
  from h out 1 a b show ?thesis by blast
qed


section \<open>Facts about the roles and their users\<close>






lemma trans_tree_Inl:
  "trans_tree rs get data st = Inl e \<Longrightarrow> trans_tree rs get' data st' = Inl e"
  by (auto simp: trans_tree_def Let_def split: sum.splits option.splits)








section \<open>Facts about the order of the calls\<close>

lemma emits_weaken: "emits m L Q \<Longrightarrow> (\<And>x. Q x \<Longrightarrow> Q' x) \<Longrightarrow> emits m L Q'"
  unfolding emits_def by (metis (no_types, lifting))

lemma emits_logged: "emits (logged ev m) [ev] (\<lambda>_. True)"
  unfolding emits_def logged_def
  by (auto split: prod.splits intro!: exI [of _ "Suc 0"])

lemma emits_pure: "emits (pureE r) [] (\<lambda>_. True)"
  unfolding emits_def pureE_def by simp

lemma emits_pure_Q: "(\<And>x. r = Inr x \<Longrightarrow> Q x) \<Longrightarrow> emits (pureE r) [] Q"
  unfolding emits_def pureE_def by simp

lemma emits_bind:
  assumes m: "emits m L1 Q1" and f: "\<And>x. Q1 x \<Longrightarrow> emits (f x) L2 Q2"
  shows "emits (bindE m f) (L1 @ L2) Q2"
  unfolding emits_def
proof (intro allI)
  fix s log
  from m obtain k where k: "k \<le> length L1" "snd (snd (m (s, log))) = log @ take k L1"
    "\<forall>x. fst (m (s, log)) = Inr x \<longrightarrow> k = length L1 \<and> Q1 x"
    unfolding emits_def by blast
  obtain r s' log' where ms: "m (s, log) = (r, (s', log'))"
    by (metis prod.exhaust)
  show "\<exists>k\<le>length (L1 @ L2).
          snd (snd (bindE m f (s, log))) = log @ take k (L1 @ L2) \<and>
          (\<forall>x. fst (bindE m f (s, log)) = Inr x \<longrightarrow> k = length (L1 @ L2) \<and> Q2 x)"
  proof (cases r)
    case (Inl e)
    with ms k show ?thesis
      by (intro exI [of _ k]) (simp add: bindE_def)
  next
    case (Inr x)
    with ms k have kx: "k = length L1" "Q1 x" "log' = log @ L1" by simp_all
    from f [OF kx(2)] obtain k2 where k2: "k2 \<le> length L2"
      "snd (snd (f x (s', log'))) = log' @ take k2 L2"
      "\<forall>y. fst (f x (s', log')) = Inr y \<longrightarrow> k2 = length L2 \<and> Q2 y"
      unfolding emits_def by blast
    with ms Inr kx show ?thesis
      by (intro exI [of _ "length L1 + k2"]) (simp add: bindE_def)
  qed
qed

lemma emits_step:
  "emits m [ev] Q1 \<Longrightarrow> (\<And>x. Q1 x \<Longrightarrow> emits (f x) L Q2) \<Longrightarrow> emits (bindE m f) (ev # L) Q2"
  using emits_bind [of m "[ev]" Q1 f L Q2] by simp

lemma emits_pure_bind:
  "(\<And>x. emits (f x) L Q) \<Longrightarrow> emits (bindE (pureE r) f) L Q"
proof -
  assume f: "\<And>x. emits (f x) L Q"
  have "emits (bindE (pureE r) f) ([] @ L) Q"
    by (rule emits_bind [OF emits_pure]) (rule f)
  then show ?thesis by simp
qed

lemma emits_parse:
  "emits (parse_blocks (watched E) txt starter m) [ParseBlocks starter] (\<lambda>_. True)"
  by (simp add: watched_def emits_logged)

lemma emits_sync_nnr:
  "emits (sync_nnr (watched E) ps a b) [SyncNnr a b] (\<lambda>_. True)"
  by (simp add: watched_def emits_logged)

lemma emits_sync_entity:
  "emits (sync_entity (watched E) desired tb) [SyncEntity tb]
     (\<lambda>deletion. emits deletion [Delete tb] (\<lambda>_. True))"
proof -
  have "emits (bindE (logged (SyncEntity tb) (sync_entity E desired tb))
               (\<lambda>deletion. pureE (Inr (logged (Delete tb) deletion))))
          ([SyncEntity tb] @ [])
          (\<lambda>deletion. emits deletion [Delete tb] (\<lambda>_. True))"
  proof (rule emits_bind [OF emits_logged])
    fix x
    show "emits (pureE (Inr (logged (Delete tb) x))) []
            (\<lambda>deletion. emits deletion [Delete tb] (\<lambda>_. True))"
      by (rule emits_pure_Q) (simp add: emits_logged)
  qed
  then show ?thesis by (simp add: watched_def)
qed

lemma emits_last: "emits m [ev] Q \<Longrightarrow> emits m [ev] (\<lambda>_. True)"
  by (rule emits_weaken) simp_all

lemma emits_load:
  "emits (load (watched E) users d t parties party_users) (drop 2 run_order) (\<lambda>_. True)"
  unfolding load_def run_order_def
  apply simp
  apply (rule emits_step [OF emits_sync_entity])
  apply (rule emits_step [OF emits_sync_entity])
  apply (rule emits_step [OF emits_sync_entity])
  apply (rule emits_step [OF emits_sync_entity])
  apply (rule emits_step [OF emits_sync_entity])
  apply (rule emits_step [OF emits_sync_entity])
  apply (rule emits_step [OF emits_sync_entity])
  apply (rule emits_step [OF emits_sync_entity])
  apply (rule emits_step [OF emits_sync_nnr])
  apply (rule emits_step [OF emits_sync_nnr])
  apply (rule emits_step [OF emits_sync_nnr])
  apply (rule emits_step [OF emits_sync_nnr])
  apply (rule emits_step [OF emits_sync_nnr])
  apply (rule emits_step, assumption)
  apply (rule emits_step, assumption)
  apply (rule emits_step, assumption)
  apply (rule emits_step, assumption)
  apply (rule emits_step, assumption)
  apply (rule emits_step, assumption)
  apply assumption
  done

lemma emits_from_unicode:
  "emits (from_unicode (watched E) domain_str gittree_str) run_order (\<lambda>_. True)"
proof -
  have ro: "run_order = ParseBlocks ''D'' # ParseBlocks ''T'' # drop 2 run_order"
    by (simp add: run_order_def)
  show ?thesis
    unfolding from_unicode_def Let_def
    apply (subst ro)
    apply (rule emits_step [OF emits_parse])
    apply (rule emits_step [OF emits_parse])
    apply (rule emits_pure_bind)
    apply (rule emits_pure_bind)
    apply (rule emits_pure_bind)
    apply (rule emits_pure_bind)
    apply (simp only: split_def)
    apply (rule emits_load)
    done
qed

lemma calls_from_unicode:
  "\<exists>k\<le>length run_order.
     calls (from_unicode (watched E) domain_str gittree_str) s = take k run_order \<and>
     (returns (from_unicode (watched E) domain_str gittree_str) (s, []) \<longrightarrow>
        k = length run_order)"
proof -
  from emits_from_unicode [of E domain_str gittree_str]
  obtain k where k: "k \<le> length run_order"
    "snd (snd (from_unicode (watched E) domain_str gittree_str (s, []))) = [] @ take k run_order"
    "\<forall>x. fst (from_unicode (watched E) domain_str gittree_str (s, [])) = Inr x \<longrightarrow>
         k = length run_order \<and> True"
    unfolding emits_def by blast
  have "returns (from_unicode (watched E) domain_str gittree_str) (s, []) \<longrightarrow>
        k = length run_order"
    using k(3) by (auto simp: returns_def split: sum.splits)
  with k show ?thesis by (auto simp: calls_def)
qed

lemma every_prefix:
  assumes "list_all (\<lambda>k. P (take k run_order)) [0..<23]"
  shows "P (take k run_order)"
proof (cases "k < 23")
  case True
  with assms show ?thesis by (simp add: list_all_iff)
next
  case False
  have len: "length run_order = 22" by (simp add: run_order_def)
  from assms have "P (take 22 run_order)" by (simp add: list_all_iff)
  with False len show ?thesis by simp
qed

lemma deletion_order_prefixes:
  "list_all (\<lambda>k. deletions_last (take k run_order) \<and>
       happens_before (Delete UserParty) (Delete GitTree) (take k run_order) \<and>
       happens_before (Delete GitTreeRole) (Delete GitTree) (take k run_order) \<and>
       happens_before (Delete SubDomainRole) (Delete GitTree) (take k run_order) \<and>
       happens_before (Delete DomainRole) (Delete GitTree) (take k run_order) \<and>
       happens_before (Delete GitTree) (Delete SubDomain) (take k run_order) \<and>
       happens_before (Delete SubDomain) (Delete Domain) (take k run_order)) [0..<23]"
  by code_simp

lemma sync_order_prefixes:
  "list_all (\<lambda>k.
       happens_before (SyncEntity Domain) (SyncEntity SubDomain) (take k run_order) \<and>
       happens_before (SyncEntity SubDomain) (SyncEntity GitTree) (take k run_order) \<and>
       happens_before (SyncEntity Domain) (SyncEntity DomainRole) (take k run_order) \<and>
       happens_before (SyncEntity SubDomain) (SyncEntity SubDomainRole) (take k run_order) \<and>
       happens_before (SyncEntity GitTree) (SyncEntity GitTreeRole) (take k run_order) \<and>
       happens_before (SyncEntity User) (SyncNnr DomainRole User) (take k run_order) \<and>
       happens_before (SyncEntity User) (SyncNnr SubDomainRole User) (take k run_order) \<and>
       happens_before (SyncEntity User) (SyncNnr GitTreeRole User) (take k run_order) \<and>
       happens_before (SyncEntity User) (SyncNnr UserParty User) (take k run_order)) [0..<23]"
  by code_simp


lemma idle_run:
  "from_unicode (watched idle_env) domain_str gittree_str ((), []) = (Inr (), ((), run_order))"
  by (simp add: from_unicode_def load_def watched_def idle_env_def bindE_def pureE_def
        logged_def build_user_cache_def transform_domains_def transform_trees_def
        transform_parties_def run_order_def Let_def)

text \<open>
  Claim C2. In every run of \<^verbatim>\<open>from_unicode\<close>, whatever the parser, the cache and the
  loader do, a deferred deletion runs only after the last call of \<^verbatim>\<open>sync_entity\<close> and
  \<^verbatim>\<open>sync_nnr\<close>, and the deletions run from the referencing tables to the referenced
  ones: those of \<^verbatim>\<open>UserParty\<close>, \<^verbatim>\<open>GitTreeRole\<close>, \<^verbatim>\<open>SubDomainRole\<close> and
  \<^verbatim>\<open>DomainRole\<close> before that of \<^verbatim>\<open>GitTree\<close>, then \<^verbatim>\<open>SubDomain\<close>, then
  \<^verbatim>\<open>Domain\<close>. A run that returns has made all the calls of \<open>run_order\<close>, in that order.
\<close>

theorem from_unicode_deletions_last_and_ordered:
  "deletions_last (calls (from_unicode (watched E) domain_str gittree_str) s) \<and>
   happens_before (Delete UserParty) (Delete GitTree)
     (calls (from_unicode (watched E) domain_str gittree_str) s) \<and>
   happens_before (Delete GitTreeRole) (Delete GitTree)
     (calls (from_unicode (watched E) domain_str gittree_str) s) \<and>
   happens_before (Delete SubDomainRole) (Delete GitTree)
     (calls (from_unicode (watched E) domain_str gittree_str) s) \<and>
   happens_before (Delete DomainRole) (Delete GitTree)
     (calls (from_unicode (watched E) domain_str gittree_str) s) \<and>
   happens_before (Delete GitTree) (Delete SubDomain)
     (calls (from_unicode (watched E) domain_str gittree_str) s) \<and>
   happens_before (Delete SubDomain) (Delete Domain)
     (calls (from_unicode (watched E) domain_str gittree_str) s) \<and>
   (returns (from_unicode (watched E) domain_str gittree_str) (s, []) \<longrightarrow>
      calls (from_unicode (watched E) domain_str gittree_str) s = run_order)"
proof -
  from calls_from_unicode [of E domain_str gittree_str s]
  obtain k where k: "calls (from_unicode (watched E) domain_str gittree_str) s = take k run_order"
    and full: "returns (from_unicode (watched E) domain_str gittree_str) (s, []) \<longrightarrow>
        k = length run_order"
    by blast
  note p = every_prefix [OF deletion_order_prefixes, of k]
  from p full show ?thesis unfolding k by simp
qed

theorem from_unicode_deletions_last_and_ordered_witness:
  "returns (from_unicode (watched idle_env) '''' '''') ((), []) \<and>
   calls (from_unicode (watched idle_env) '''' '''') () = run_order \<and>
   deletions_last run_order \<and>
   happens_before (Delete SubDomain) (Delete Domain) run_order"
proof -
  have r: "returns (from_unicode (watched idle_env) '''' '''') ((), [])"
    by (simp add: returns_def idle_run)
  note T = from_unicode_deletions_last_and_ordered [of idle_env "''''" "''''" "()"]
  from T r have c: "calls (from_unicode (watched idle_env) '''' '''') () = run_order"
    by blast
  from T have d: "deletions_last (calls (from_unicode (watched idle_env) '''' '''') ())"
    by blast
  from T have h: "happens_before (Delete SubDomain) (Delete Domain)
              (calls (from_unicode (watched idle_env) '''' '''') ())"
    by blast
  from r c d [unfolded c] h [unfolded c] show ?thesis by simp
qed

text \<open>
  Claim C3. In every run of \<^verbatim>\<open>from_unicode\<close> a table is synced after the tables its
  natural keys refer to: \<^verbatim>\<open>Domain\<close> before \<^verbatim>\<open>SubDomain\<close>, \<^verbatim>\<open>SubDomain\<close> before
  \<^verbatim>\<open>GitTree\<close>, \<^verbatim>\<open>Domain\<close> before \<^verbatim>\<open>DomainRole\<close>, \<^verbatim>\<open>SubDomain\<close> before
  \<^verbatim>\<open>SubDomainRole\<close>, \<^verbatim>\<open>GitTree\<close> before \<^verbatim>\<open>GitTreeRole\<close>, and \<^verbatim>\<open>User\<close> before
  every relation between a role table and \<^verbatim>\<open>User\<close>. The calls follow one another, so
  the earlier call has returned when the later one starts.
\<close>

theorem from_unicode_parents_synced_first:
  "happens_before (SyncEntity Domain) (SyncEntity SubDomain)
     (calls (from_unicode (watched E) domain_str gittree_str) s) \<and>
   happens_before (SyncEntity SubDomain) (SyncEntity GitTree)
     (calls (from_unicode (watched E) domain_str gittree_str) s) \<and>
   happens_before (SyncEntity Domain) (SyncEntity DomainRole)
     (calls (from_unicode (watched E) domain_str gittree_str) s) \<and>
   happens_before (SyncEntity SubDomain) (SyncEntity SubDomainRole)
     (calls (from_unicode (watched E) domain_str gittree_str) s) \<and>
   happens_before (SyncEntity GitTree) (SyncEntity GitTreeRole)
     (calls (from_unicode (watched E) domain_str gittree_str) s) \<and>
   happens_before (SyncEntity User) (SyncNnr DomainRole User)
     (calls (from_unicode (watched E) domain_str gittree_str) s) \<and>
   happens_before (SyncEntity User) (SyncNnr SubDomainRole User)
     (calls (from_unicode (watched E) domain_str gittree_str) s) \<and>
   happens_before (SyncEntity User) (SyncNnr GitTreeRole User)
     (calls (from_unicode (watched E) domain_str gittree_str) s) \<and>
   happens_before (SyncEntity User) (SyncNnr UserParty User)
     (calls (from_unicode (watched E) domain_str gittree_str) s) \<and>
   (returns (from_unicode (watched E) domain_str gittree_str) (s, []) \<longrightarrow>
      list_all (\<lambda>ev. ev \<in> set (calls (from_unicode (watched E) domain_str gittree_str) s))
        (take 13 (drop 2 run_order)))"
proof -
  from calls_from_unicode [of E domain_str gittree_str s]
  obtain k where k: "calls (from_unicode (watched E) domain_str gittree_str) s = take k run_order"
    and full: "returns (from_unicode (watched E) domain_str gittree_str) (s, []) \<longrightarrow>
        k = length run_order"
    by blast
  note p = every_prefix [OF sync_order_prefixes, of k]
  have all: "list_all (\<lambda>ev. ev \<in> set run_order) (take 13 (drop 2 run_order))"
    by code_simp
  from p full all show ?thesis unfolding k by auto
qed

theorem from_unicode_parents_synced_first_witness:
  "returns (from_unicode (watched idle_env) '''' '''') ((), []) \<and>
   list_all (\<lambda>ev. ev \<in> set (calls (from_unicode (watched idle_env) '''' '''') ()))
        (take 13 (drop 2 run_order)) \<and>
   happens_before (SyncEntity Domain) (SyncEntity SubDomain)
     (calls (from_unicode (watched idle_env) '''' '''') ())"
proof -
  have r: "returns (from_unicode (watched idle_env) '''' '''') ((), [])"
    by (simp add: returns_def idle_run)
  from from_unicode_parents_synced_first [of idle_env "''''" "''''" "()"] r
  show ?thesis by simp
qed



section \<open>Facts about the decoding\<close>

text \<open>
  Claim C6. \<^verbatim>\<open>from_string\<close> decodes the two byte strings with the coding it is given,
  \<^verbatim>\<open>utf8\<close> when it is given none, and then calls \<^verbatim>\<open>from_unicode\<close> on the two texts.
  When one of them does not decode it raises at once: the state is the one it started
  from, and the log of a watched run is empty, so that no block was parsed and no call
  of the loader was made.
\<close>

theorem from_string_decodes_first:
  "(case decode (case coding_arg of None \<Rightarrow> ''utf8'' | Some c \<Rightarrow> c) b1 of
      None \<Rightarrow>
        from_string E decode (Bytes b1) y coding_arg s = (Inl DecodeError, s) \<and>
        calls (from_string (watched E) decode (Bytes b1) y coding_arg) s = []
    | Some u1 \<Rightarrow>
        (case decode (case coding_arg of None \<Rightarrow> ''utf8'' | Some c \<Rightarrow> c) b2 of
           None \<Rightarrow>
             from_string E decode (Bytes b1) (Bytes b2) coding_arg s = (Inl DecodeError, s) \<and>
             calls (from_string (watched E) decode (Bytes b1) (Bytes b2) coding_arg) s = []
         | Some u2 \<Rightarrow>
             from_string E decode (Bytes b1) (Bytes b2) coding_arg = from_unicode E u1 u2))"
  by (auto simp: from_string_def decode_arg_def bindE_def pureE_def calls_def Let_def
           split: option.splits)

lemma ascii_codec_samples:
  "ascii_codec ''ascii'' ''D: Apps'' = Some ''D: Apps''"
  "ascii_codec ''ascii'' [char_of (200::nat)] = None"
  "ascii_codec ''utf8'' ''D: Apps'' = None"
  by code_simp+

theorem from_string_decodes_first_witness:
  "ascii_codec ''ascii'' ''D: Apps'' = Some ''D: Apps'' \<and>
   ascii_codec ''ascii'' [char_of (200::nat)] = None \<and>
   from_string idle_env ascii_codec (Bytes ''D: Apps'') (Bytes [char_of (200::nat)])
     (Some ''ascii'') () = (Inl DecodeError, ()) \<and>
   calls (from_string (watched idle_env) ascii_codec (Bytes ''D: Apps'')
            (Bytes [char_of (200::nat)]) (Some ''ascii'')) () = []"
  using from_string_decodes_first
    [where decode = ascii_codec and coding_arg = "Some ''ascii''" and ?b1.0 = "''D: Apps''"
       and E = idle_env and y = "Bytes [char_of (200::nat)]" and s = "()"
       and ?b2.0 = "[char_of (200::nat)]"]
  by (simp add: ascii_codec_samples)

section \<open>Facts about the identity cache\<close>

lemma fold_fold_concat:
  "fold (\<lambda>x. fold f (g x)) xs s = fold f (concat (map g xs)) s"
  by (induction xs arbitrary: s) simp_all

lemma with_user_cache_simps:
  "ROLES (with_user_cache E) = ROLES E"
  "party_choices (with_user_cache E) = party_choices E"
  "parse_blocks (with_user_cache E) = parse_blocks E"
  "UserCache (with_user_cache E) = new_cache"
  "uc_update (with_user_cache E) = cache_update"
  "uc_get (with_user_cache E) = cache_get"
  "uc_all (with_user_cache E) = cache_all"
  "sync_entity (with_user_cache E) = sync_entity E"
  "sync_nnr (with_user_cache E) = sync_nnr E"
  by (simp_all add: with_user_cache_def)

lemma cache_block_fold:
  "cache_block (with_user_cache E) starter data uc =
   fold cache_update (block_identities (ROLES E) starter data) uc"
  by (simp add: cache_block_def block_identities_def with_user_cache_simps fold_fold_concat)

lemma build_user_cache_fold:
  "build_user_cache (with_user_cache E) domains_data trees_data =
   fold cache_update (identity_strings (ROLES E) domains_data trees_data) new_cache"
proof -
  have cb: "cache_block (with_user_cache E) starter =
            (\<lambda>data. fold cache_update (block_identities (ROLES E) starter data))" for starter
    by (intro ext) (rule cache_block_fold)
  show ?thesis
    by (simp add: build_user_cache_def Let_def cb fold_fold_concat identity_strings_def
          with_user_cache_simps)
qed

lemma cache_inv_new: "cache_inv {} new_cache"
  by (simp add: cache_inv_def new_cache_def)

lemma cache_inv_update:
  assumes inv: "cache_inv seen uc"
  shows "cache_inv (insert raw seen) (cache_update raw uc)"
proof (cases "parse_identity raw")
  case None
  then have ek: "email_key raw = None" by (simp add: email_key_def)
  from None have same: "cache_update raw uc = uc" by (simp add: cache_update_def)
  from inv ek show ?thesis unfolding same cache_inv_def by auto
next
  case (Some p)
  obtain name email where p: "p = (name, email)" by (cases p)
  with Some have ek: "email_key raw = Some (lower email)" by (simp add: email_key_def)
  show ?thesis
  proof (cases "map_of (by_email uc) (lower email)")
    case (Some canonical)
    with \<open>parse_identity raw = Some p\<close> p
    have upd: "cache_update raw uc = uc\<lparr>by_string := (by_string uc)(raw \<mapsto> canonical)\<rparr>"
      by (simp add: cache_update_def)
    from Some have kin: "lower email \<in> fst ` set (by_email uc)"
      by (metis map_of_eq_None_iff option.distinct(1))
    from inv have i1: "distinct (map fst (by_email uc))"
      and i2: "\<forall>(k, u) \<in> set (by_email uc). record_key u = Some k"
      and i3: "\<forall>r u. by_string uc r = Some u \<longrightarrow>
             (\<exists>k. email_key r = Some k \<and> map_of (by_email uc) k = Some u)"
      and i4: "fst ` set (by_email uc) = {k. \<exists>r\<in>seen. email_key r = Some k}"
      and i5: "dom (by_string uc) = {r \<in> seen. email_key r \<noteq> None}"
      unfolding cache_inv_def by blast+
    have n3: "\<forall>r u. ((by_string uc)(raw \<mapsto> canonical)) r = Some u \<longrightarrow>
             (\<exists>k. email_key r = Some k \<and> map_of (by_email uc) k = Some u)"
      using i3 ek Some by auto
    have n4: "fst ` set (by_email uc) = {k. \<exists>r\<in>insert raw seen. email_key r = Some k}"
      using i4 ek kin by auto
    have n5: "dom ((by_string uc)(raw \<mapsto> canonical)) =
              {r \<in> insert raw seen. email_key r \<noteq> None}"
      using i5 ek by auto
    from i1 i2 n3 n4 n5 show ?thesis unfolding upd cache_inv_def by simp
  next
    case None
    let ?u = "[''name'' \<mapsto> name, ''email'' \<mapsto> email]"
    from None \<open>parse_identity raw = Some p\<close> p
    have upd: "cache_update raw uc =
        uc\<lparr>by_string := (by_string uc)(raw \<mapsto> ?u),
           by_email := by_email uc @ [(lower email, ?u)]\<rparr>"
      by (simp add: cache_update_def Let_def)
    from None have knew: "lower email \<notin> fst ` set (by_email uc)"
      by (simp add: map_of_eq_None_iff)
    from inv have i1: "distinct (map fst (by_email uc))"
      and i2: "\<forall>(k, u) \<in> set (by_email uc). record_key u = Some k"
      and i3: "\<forall>r u. by_string uc r = Some u \<longrightarrow>
             (\<exists>k. email_key r = Some k \<and> map_of (by_email uc) k = Some u)"
      and i4: "fst ` set (by_email uc) = {k. \<exists>r\<in>seen. email_key r = Some k}"
      and i5: "dom (by_string uc) = {r \<in> seen. email_key r \<noteq> None}"
      unfolding cache_inv_def by blast+
    let ?be = "by_email uc @ [(lower email, ?u)]"
    have n1: "distinct (map fst ?be)" using i1 knew by simp
    have n2: "\<forall>(k, u) \<in> set ?be. record_key u = Some k"
      using i2 by (auto simp: record_key_def)
    have mo: "map_of ?be k = (if k = lower email then Some ?u else map_of (by_email uc) k)" for k
      using None by (cases "map_of (by_email uc) k") (auto simp: map_add_def)
    have n3: "\<forall>r u. ((by_string uc)(raw \<mapsto> ?u)) r = Some u \<longrightarrow>
             (\<exists>k. email_key r = Some k \<and> map_of ?be k = Some u)"
    proof (intro allI impI)
      fix r u assume a: "((by_string uc)(raw \<mapsto> ?u)) r = Some u"
      show "\<exists>k. email_key r = Some k \<and> map_of ?be k = Some u"
      proof (cases "r = raw")
        case True
        with a have u: "u = ?u" by simp
        from mo [of "lower email"] have "map_of ?be (lower email) = Some ?u" by simp
        with ek True show ?thesis unfolding u by blast
      next
        case False
        with a have "by_string uc r = Some u" by simp
        with i3 obtain k where k: "email_key r = Some k" "map_of (by_email uc) k = Some u"
          by blast
        then have "k \<in> fst ` set (by_email uc)"
          by (metis map_of_eq_None_iff option.distinct(1))
        with knew have "k \<noteq> lower email" by blast
        with k show ?thesis by (simp add: mo del: map_of_append)
      qed
    qed
    have n4: "fst ` set ?be = {k. \<exists>r\<in>insert raw seen. email_key r = Some k}"
      using i4 ek by auto
    have n5: "dom ((by_string uc)(raw \<mapsto> ?u)) = {r \<in> insert raw seen. email_key r \<noteq> None}"
      using i5 ek by auto
    from n1 n2 n3 n4 n5 show ?thesis unfolding upd cache_inv_def by simp
  qed
qed

lemma cache_inv_fold:
  "cache_inv seen uc \<Longrightarrow> cache_inv (seen \<union> set raws) (fold cache_update raws uc)"
proof (induction raws arbitrary: seen uc)
  case Nil
  then show ?case by simp
next
  case (Cons raw raws)
  from cache_inv_update [OF Cons.prems, of raw]
  have "cache_inv (insert raw seen \<union> set raws) (fold cache_update raws (cache_update raw uc))"
    by (rule Cons.IH)
  then show ?case by simp
qed

lemma build_user_cache_inv:
  "cache_inv (set (identity_strings (ROLES E) domains_data trees_data))
     (build_user_cache (with_user_cache E) domains_data trees_data)"
  using cache_inv_fold [OF cache_inv_new] by (simp add: build_user_cache_fold)

lemma cache_inv_same_record:
  assumes inv: "cache_inv seen uc" and r1: "r1 \<in> seen" and r2: "r2 \<in> seen"
    and k: "email_key r1 \<noteq> None" "email_key r1 = email_key r2"
  shows "cache_get uc r1 \<noteq> None \<and> cache_get uc r1 = cache_get uc r2 \<and>
         (\<exists>u. cache_get uc r1 = Some u \<and> record_key u = email_key r1)"
proof -
  from inv have i2: "\<forall>(k, u) \<in> set (by_email uc). record_key u = Some k"
    and i3: "\<forall>r u. by_string uc r = Some u \<longrightarrow>
             (\<exists>k. email_key r = Some k \<and> map_of (by_email uc) k = Some u)"
    and i5: "dom (by_string uc) = {r \<in> seen. email_key r \<noteq> None}"
    unfolding cache_inv_def by blast+
  from i5 r1 r2 k obtain u1 u2 where u: "by_string uc r1 = Some u1" "by_string uc r2 = Some u2"
    by (metis (mono_tags, lifting) domD mem_Collect_eq)
  from i3 u obtain k1 k2 where
    k1: "email_key r1 = Some k1" "map_of (by_email uc) k1 = Some u1" and
    k2: "email_key r2 = Some k2" "map_of (by_email uc) k2 = Some u2"
    by blast
  from k k1 k2 have "k1 = k2" by simp
  with k1 k2 have same: "u1 = u2" by simp
  from k1(2) have "(k1, u1) \<in> set (by_email uc)" by (rule map_of_SomeD)
  with i2 have "record_key u1 = Some k1" by blast
  with u same k1 show ?thesis by (simp add: cache_get_def)
qed

lemma cache_inv_all:
  assumes inv: "cache_inv seen uc"
  shows "distinct (map record_key (cache_all uc)) \<and>
         set (map record_key (cache_all uc)) = {Some k |k. \<exists>r\<in>seen. email_key r = Some k}"
proof -
  from inv have i1: "distinct (map fst (by_email uc))"
    and i2: "\<forall>(k, u) \<in> set (by_email uc). record_key u = Some k"
    and i4: "fst ` set (by_email uc) = {k. \<exists>r\<in>seen. email_key r = Some k}"
    unfolding cache_inv_def by blast+
  have eq: "map record_key (cache_all uc) = map Some (map fst (by_email uc))"
    using i2 by (auto simp: cache_all_def)
  have "distinct (map Some (map fst (by_email uc)))"
    using i1 by (simp add: distinct_map inj_on_def)
  moreover have "set (map Some (map fst (by_email uc))) =
      {Some k |k. \<exists>r\<in>seen. email_key r = Some k}"
  proof -
    have "set (map Some (map fst (by_email uc))) = Some ` (fst ` set (by_email uc))"
      by (simp add: image_image)
    also have "\<dots> = Some ` {k. \<exists>r\<in>seen. email_key r = Some k}"
      by (simp only: i4)
    also have "\<dots> = {Some k |k. \<exists>r\<in>seen. email_key r = Some k}"
      by blast
    finally show ?thesis .
  qed
  ultimately show ?thesis unfolding eq by simp
qed

text \<open>
  Claim C4. After \<^verbatim>\<open>build_user_cache\<close>, with the cache of the specification, two raw
  strings of the blocks whose emails are the same up to the case of the letters are known
  to the cache and lead to the same canonical record, whose email is theirs up to case;
  and the records of \<^verbatim>\<open>all()\<close> have emails that differ even without regard to case,
  one record for every email of a well-formed string of the blocks.
\<close>

theorem build_user_cache_one_record_per_email:
  "(\<forall>r1 \<in> set (identity_strings (ROLES E) domains_data trees_data).
    \<forall>r2 \<in> set (identity_strings (ROLES E) domains_data trees_data).
       email_key r1 \<noteq> None \<and> email_key r1 = email_key r2 \<longrightarrow>
       cache_get (build_user_cache (with_user_cache E) domains_data trees_data) r1 \<noteq> None \<and>
       cache_get (build_user_cache (with_user_cache E) domains_data trees_data) r1 =
       cache_get (build_user_cache (with_user_cache E) domains_data trees_data) r2 \<and>
       (\<exists>u. cache_get (build_user_cache (with_user_cache E) domains_data trees_data) r1 = Some u \<and>
            record_key u = email_key r1)) \<and>
   distinct (map record_key
     (cache_all (build_user_cache (with_user_cache E) domains_data trees_data))) \<and>
   set (map record_key
     (cache_all (build_user_cache (with_user_cache E) domains_data trees_data))) =
     {Some k |k. \<exists>r \<in> set (identity_strings (ROLES E) domains_data trees_data).
                    email_key r = Some k}"
proof (intro conjI ballI impI)
  fix r1 r2
  assume r: "r1 \<in> set (identity_strings (ROLES E) domains_data trees_data)"
    "r2 \<in> set (identity_strings (ROLES E) domains_data trees_data)"
    and k: "email_key r1 \<noteq> None \<and> email_key r1 = email_key r2"
  note same = cache_inv_same_record [OF build_user_cache_inv [of E domains_data trees_data]
      r conjunct1 [OF k] conjunct2 [OF k]]
  from same
  show "cache_get (build_user_cache (with_user_cache E) domains_data trees_data) r1 \<noteq> None"
    by (rule conjunct1)
  from same
  show "cache_get (build_user_cache (with_user_cache E) domains_data trees_data) r1 =
       cache_get (build_user_cache (with_user_cache E) domains_data trees_data) r2"
    by (elim conjE)
  from same
  show "\<exists>u. cache_get (build_user_cache (with_user_cache E) domains_data trees_data) r1 = Some u \<and>
            record_key u = email_key r1"
    by (elim conjE)
next
  note all = cache_inv_all [OF build_user_cache_inv [of E domains_data trees_data]]
  from all show "distinct (map record_key
     (cache_all (build_user_cache (with_user_cache E) domains_data trees_data)))"
    by (rule conjunct1)
  from all show "set (map record_key
     (cache_all (build_user_cache (with_user_cache E) domains_data trees_data))) =
     {Some k |k. \<exists>r \<in> set (identity_strings (ROLES E) domains_data trees_data).
                    email_key r = Some k}"
    by (rule conjunct2)
qed

lemma identity_samples:
  "parse_identity ''Alice <a@x.com>'' = Some (''Alice'', ''a@x.com'')"
  "parse_identity ''alice <A@X.COM>'' = Some (''alice'', ''A@X.COM'')"
  "parse_identity ''<bob@y.org>'' = Some (''bob'', ''bob@y.org'')"
  "parse_identity ''nobody'' = None"
  "email_key ''Alice <a@x.com>'' = Some ''a@x.com''"
  "email_key ''alice <A@X.COM>'' = Some ''a@x.com''"
  "lower ''a@x.com'' = ''a@x.com''"
  "lower ''A@X.COM'' = ''a@x.com''"
  by code_simp+

theorem build_user_cache_one_record_per_email_witness:
  "''Alice <a@x.com>'' \<in> set (identity_strings (ROLES (idle_env\<lparr>ROLES := [''REVIEWER'']\<rparr>))
      [\<lparr>head_value = ''Apps'',
        others = [''REVIEWER'' \<mapsto> [''Alice <a@x.com>'', ''alice <A@X.COM>'']]\<rparr>] []) \<and>
   ''alice <A@X.COM>'' \<in> set (identity_strings (ROLES (idle_env\<lparr>ROLES := [''REVIEWER'']\<rparr>))
      [\<lparr>head_value = ''Apps'',
        others = [''REVIEWER'' \<mapsto> [''Alice <a@x.com>'', ''alice <A@X.COM>'']]\<rparr>] []) \<and>
   email_key ''Alice <a@x.com>'' \<noteq> None \<and>
   email_key ''Alice <a@x.com>'' = email_key ''alice <A@X.COM>'' \<and>
   cache_get (build_user_cache (with_user_cache (idle_env\<lparr>ROLES := [''REVIEWER'']\<rparr>))
      [\<lparr>head_value = ''Apps'',
        others = [''REVIEWER'' \<mapsto> [''Alice <a@x.com>'', ''alice <A@X.COM>'']]\<rparr>] [])
      ''Alice <a@x.com>'' =
   cache_get (build_user_cache (with_user_cache (idle_env\<lparr>ROLES := [''REVIEWER'']\<rparr>))
      [\<lparr>head_value = ''Apps'',
        others = [''REVIEWER'' \<mapsto> [''Alice <a@x.com>'', ''alice <A@X.COM>'']]\<rparr>] [])
      ''alice <A@X.COM>'' \<and>
   cache_all (build_user_cache (with_user_cache (idle_env\<lparr>ROLES := [''REVIEWER'']\<rparr>))
      [\<lparr>head_value = ''Apps'',
        others = [''REVIEWER'' \<mapsto> [''Alice <a@x.com>'', ''alice <A@X.COM>'']]\<rparr>] []) =
     [[''name'' \<mapsto> ''Alice'', ''email'' \<mapsto> ''a@x.com'']]"
proof -
  let ?E = "idle_env\<lparr>ROLES := [''REVIEWER'']\<rparr>"
  let ?dd = "[\<lparr>head_value = ''Apps'',
        others = [''REVIEWER'' \<mapsto> [''Alice <a@x.com>'', ''alice <A@X.COM>'']]\<rparr>]"
  have ids: "identity_strings (ROLES ?E) ?dd [] = [''Alice <a@x.com>'', ''alice <A@X.COM>'']"
    by (simp add: identity_strings_def block_identities_def block_roles_def has_key_def
          field_values_def)
  have a: "''Alice <a@x.com>'' \<in> set (identity_strings (ROLES ?E) ?dd [])"
    and b: "''alice <A@X.COM>'' \<in> set (identity_strings (ROLES ?E) ?dd [])"
    unfolding ids by simp_all
  have k: "email_key ''Alice <a@x.com>'' \<noteq> None \<and>
           email_key ''Alice <a@x.com>'' = email_key ''alice <A@X.COM>''"
    by (simp add: identity_samples)
  note T = build_user_cache_one_record_per_email [of ?E ?dd "[]"]
  from T have "\<forall>r1 \<in> set (identity_strings (ROLES ?E) ?dd []).
    \<forall>r2 \<in> set (identity_strings (ROLES ?E) ?dd []).
       email_key r1 \<noteq> None \<and> email_key r1 = email_key r2 \<longrightarrow>
       cache_get (build_user_cache (with_user_cache ?E) ?dd []) r1 \<noteq> None \<and>
       cache_get (build_user_cache (with_user_cache ?E) ?dd []) r1 =
       cache_get (build_user_cache (with_user_cache ?E) ?dd []) r2 \<and>
       (\<exists>u. cache_get (build_user_cache (with_user_cache ?E) ?dd []) r1 = Some u \<and>
            record_key u = email_key r1)"
    by (rule conjunct1)
  from this [rule_format, OF a b k]
  have same: "cache_get (build_user_cache (with_user_cache ?E) ?dd []) ''Alice <a@x.com>'' =
       cache_get (build_user_cache (with_user_cache ?E) ?dd []) ''alice <A@X.COM>''"
    by (elim conjE)
  have all: "cache_all (build_user_cache (with_user_cache ?E) ?dd []) =
     [[''name'' \<mapsto> ''Alice'', ''email'' \<mapsto> ''a@x.com'']]"
    unfolding build_user_cache_fold ids
    by (simp add: cache_update_def new_cache_def identity_samples cache_all_def Let_def)
  from a b k same all show ?thesis by (intro conjI) (elim conjE, assumption)+
qed

section \<open>Facts about the reconciliation engine\<close>

lemma latest_Some_key: "latest sch tb ds k = Some d \<Longrightarrow> key_of sch tb d = k"
  by (auto simp: latest_def find_Some_iff)

lemma latest_None_iff: "latest sch tb ds k = None \<longleftrightarrow> k \<notin> key_of sch tb ` set ds"
  by (auto simp: latest_def find_None_iff)

lemma map_add_twice: "(r ++ d) ++ d = r ++ (d :: 'a \<rightharpoonup> 'b)" and map_add_self: "d ++ d = d"
  by (auto simp: map_add_def fun_eq_iff split: option.splits)

lemma find_in_set: "find P xs = Some x \<Longrightarrow> x \<in> set xs"
  by (induction xs) (auto split: if_splits)

lemma latest_Some_mem: "latest sch tb ds k = Some d \<Longrightarrow> d \<in> set ds"
  using find_in_set [of _ "rev ds" d] by (auto simp: latest_def)

lemma key_of_merge:
  assumes "key_of sch tb d = key_of sch tb r"
  shows "key_of sch tb (r ++ d) = key_of sch tb r"
  using assms unfolding key_of_def
  by (induction "natural_key sch tb") (auto simp: map_add_def split: option.splits)

lemma key_of_touch: "key_of sch tb (touch sch tb ds r) = key_of sch tb r"
  by (auto simp: touch_def key_of_merge dest!: latest_Some_key split: option.splits)

lemma touch_touch: "touch sch tb ds (touch sch tb ds r) = touch sch tb ds r"
proof (cases "latest sch tb ds (key_of sch tb r)")
  case None
  then show ?thesis by (simp add: touch_def)
next
  case (Some d)
  then have "key_of sch tb (r ++ d) = key_of sch tb r"
    by (simp add: key_of_merge latest_Some_key)
  with Some show ?thesis by (simp add: touch_def map_add_twice)
qed

lemma touch_latest:
  "latest sch tb ds k = Some d \<Longrightarrow> touch sch tb ds d = d"
  by (simp add: touch_def latest_Some_key map_add_self)

lemma upsert_touch:
  "upsert sch tb ds old =
     map (touch sch tb ds) old @
     List.map_filter (latest sch tb ds)
       (remdups (filter (\<lambda>k. k \<notin> key_of sch tb ` set old) (map (key_of sch tb) ds)))"
  by (simp add: upsert_def)

lemma upsert_fixed:
  assumes fixed: "\<forall>r\<in>set rs. touch sch tb ds r = r"
    and present: "key_of sch tb ` set ds \<subseteq> key_of sch tb ` set rs"
  shows "upsert sch tb ds rs = rs"
proof -
  have "filter (\<lambda>k. k \<notin> key_of sch tb ` set rs) (map (key_of sch tb) ds) = []"
    using present by (auto simp: filter_empty_conv)
  moreover have "map (touch sch tb ds) rs = rs"
    using fixed by (simp add: map_idI)
  ultimately show ?thesis by (simp add: upsert_touch map_filter_simps)
qed

lemma set_map_filter_latest:
  "r \<in> set (List.map_filter (latest sch tb ds) ks) \<Longrightarrow>
   \<exists>k\<in>set ks. latest sch tb ds k = Some r"
  by (auto simp: map_filter_def)

lemma upsert_rows_fixed:
  "\<forall>r\<in>set (upsert sch tb ds old). touch sch tb ds r = r"
  by (auto simp: upsert_touch touch_touch dest!: set_map_filter_latest intro: touch_latest)

lemma upsert_keys_present:
  "key_of sch tb ` set ds \<subseteq> key_of sch tb ` set (upsert sch tb ds old)"
proof
  fix k assume k: "k \<in> key_of sch tb ` set ds"
  show "k \<in> key_of sch tb ` set (upsert sch tb ds old)"
  proof (cases "k \<in> key_of sch tb ` set old")
    case True
    then obtain r where "r \<in> set old" "key_of sch tb r = k" by auto
    then have "touch sch tb ds r \<in> set (upsert sch tb ds old)"
      "key_of sch tb (touch sch tb ds r) = k"
      by (simp_all add: upsert_touch key_of_touch)
    then show ?thesis by (metis image_eqI)
  next
    case False
    from k obtain d where d: "latest sch tb ds k = Some d"
      using latest_None_iff [of sch tb ds k] by (cases "latest sch tb ds k") auto
    have "k \<in> set (remdups (filter (\<lambda>k. k \<notin> key_of sch tb ` set old) (map (key_of sch tb) ds)))"
      using k False by auto
    with d have "d \<in> set (List.map_filter (latest sch tb ds)
        (remdups (filter (\<lambda>k. k \<notin> key_of sch tb ` set old) (map (key_of sch tb) ds))))"
      by (force simp: map_filter_def)
    then have "d \<in> set (upsert sch tb ds old)" by (simp add: upsert_touch)
    moreover have "key_of sch tb d = k" using d by (rule latest_Some_key)
    ultimately show ?thesis by (metis image_eqI)
  qed
qed

lemma upsert_idem: "upsert sch tb ds (upsert sch tb ds old) = upsert sch tb ds old"
  by (rule upsert_fixed [OF upsert_rows_fixed upsert_keys_present])

lemma upsert_keep:
  "upsert sch tb ds (keep sch tb (candidates sch tb ds old) (upsert sch tb ds old)) =
   keep sch tb (candidates sch tb ds old) (upsert sch tb ds old)"
proof (rule upsert_fixed)
  show "\<forall>r\<in>set (keep sch tb (candidates sch tb ds old) (upsert sch tb ds old)).
          touch sch tb ds r = r"
    using upsert_rows_fixed by (auto simp: keep_def)
  show "key_of sch tb ` set ds \<subseteq>
        key_of sch tb ` set (keep sch tb (candidates sch tb ds old) (upsert sch tb ds old))"
  proof
    fix k assume k: "k \<in> key_of sch tb ` set ds"
    with upsert_keys_present obtain r where r: "r \<in> set (upsert sch tb ds old)"
      "key_of sch tb r = k" by (metis (no_types, lifting) image_iff subsetD)
    from k r have "key_of sch tb r \<notin> set (candidates sch tb ds old)"
      by (auto simp: candidates_def)
    with r show "k \<in> key_of sch tb ` set (keep sch tb (candidates sch tb ds old)
                     (upsert sch tb ds old))"
      by (auto simp: keep_def intro!: image_eqI [of _ _ r])
  qed
qed

lemma upsert_keys:
  "key_of sch tb ` set (upsert sch tb ds old) \<subseteq> key_of sch tb ` set old \<union> key_of sch tb ` set ds"
proof
  fix k assume "k \<in> key_of sch tb ` set (upsert sch tb ds old)"
  then obtain r where r: "r \<in> set (upsert sch tb ds old)" "k = key_of sch tb r" by auto
  from r(1) consider (a) r0 where "r0 \<in> set old" "r = touch sch tb ds r0"
    | (b) k' where "latest sch tb ds k' = Some r"
    by (auto simp: upsert_touch dest!: set_map_filter_latest)
  then show "k \<in> key_of sch tb ` set old \<union> key_of sch tb ` set ds"
  proof cases
    case a
    with r show ?thesis by (auto simp: key_of_touch)
  next
    case b
    then have "r \<in> set ds" by (rule latest_Some_mem)
    with r show ?thesis by auto
  qed
qed

lemma candidates_keep:
  "candidates sch tb ds (keep sch tb (candidates sch tb ds old) (upsert sch tb ds old)) = []"
proof -
  have "key_of sch tb r \<in> key_of sch tb ` set ds"
    if "r \<in> set (upsert sch tb ds old)" "key_of sch tb r \<notin> set (candidates sch tb ds old)" for r
  proof -
    from that(1) upsert_keys have "key_of sch tb r \<in> key_of sch tb ` set old \<union> key_of sch tb ` set ds"
      by blast
    with that(2) show ?thesis by (auto simp: candidates_def)
  qed
  then have "\<forall>r\<in>set (keep sch tb (candidates sch tb ds old) (upsert sch tb ds old)).
              key_of sch tb r \<in> key_of sch tb ` set ds"
    by (simp add: keep_def)
  then show ?thesis
    unfolding candidates_def [of sch tb ds "keep sch tb (candidates sch tb ds old) (upsert sch tb ds old)"]
    by (auto simp: filter_empty_conv)
qed

lemma candidates_upsert:
  "candidates sch tb ds (upsert sch tb ds old) = candidates sch tb ds old"
proof -
  have a: "map (key_of sch tb \<circ> touch sch tb ds) old = map (key_of sch tb) old"
    by (simp add: key_of_touch)
  have b: "filter (\<lambda>k. k \<notin> key_of sch tb ` set ds)
             (map (key_of sch tb) (List.map_filter (latest sch tb ds) ks)) = []" for ks
  proof -
    have "key_of sch tb r \<in> key_of sch tb ` set ds"
      if "r \<in> set (List.map_filter (latest sch tb ds) ks)" for r
      using set_map_filter_latest [OF that] latest_Some_mem by blast
    then show ?thesis by (auto simp: filter_empty_conv)
  qed
  show ?thesis
    unfolding candidates_def upsert_touch
    by (simp add: a b [simplified])
qed

lemma keep_keep: "keep sch tb cands (keep sch tb cands rs) = keep sch tb cands rs"
  by (simp add: keep_def)

lemma keep_Nil: "keep sch tb [] rs = rs"
  by (simp add: keep_def)

lemma relink_idem: "relink sch ta tb ps (relink sch ta tb ps old) = relink sch ta tb ps old"
  by (auto simp: relink_def)

lemma same_rows: "s\<lparr>rows := (rows s)(tb := rows s tb)\<rparr> = (s :: db)"
  by simp

lemma same_edges: "s\<lparr>edges := (edges s)(r := edges s r)\<rparr> = (s :: db)"
  by simp

lemma run_at_rest:
  "at_rest sch s pending steps \<Longrightarrow> run_steps sch steps pending s = s"
proof (induction steps arbitrary: pending)
  case Nil
  then show ?case by simp
next
  case (Cons st rest)
  show ?case
  proof (cases st)
    case (Sync tb desired)
    show ?thesis
    proof (cases "all_resolve sch s tb desired")
      case True
      with Cons.prems Sync have fixed: "upsert sch tb desired (rows s tb) = rows s tb"
        and rest: "at_rest sch s (pending(tb := candidates sch tb desired (rows s tb))) rest"
        by simp_all
      have "run_steps sch (Sync tb desired # rest) pending s =
            run_steps sch rest (pending(tb := candidates sch tb desired (rows s tb))) s"
        using True fixed by simp
      also have "\<dots> = s" by (rule Cons.IH [OF rest])
      finally show ?thesis unfolding Sync .
    next
      case False
      with Sync show ?thesis by simp
    qed
  next
    case (Nnr ps ta tb)
    show ?thesis
    proof (cases "pairs_resolve sch s ta tb ps")
      case True
      with Cons.prems Nnr have fixed: "relink sch ta tb ps (edges s (ta, tb)) = edges s (ta, tb)"
        and rest: "at_rest sch s pending rest"
        by simp_all
      have "run_steps sch (Nnr ps ta tb # rest) pending s = run_steps sch rest pending s"
        using True fixed by simp
      also have "\<dots> = s" by (rule Cons.IH [OF rest])
      finally show ?thesis unfolding Nnr .
    next
      case False
      with Nnr show ?thesis by simp
    qed
  next
    case (Del tb)
    with Cons.prems have fixed: "keep sch tb (pending tb) (rows s tb) = rows s tb"
      and rest: "at_rest sch s pending rest"
      by simp_all
    have "run_steps sch (Del tb # rest) pending s = run_steps sch rest pending s"
      using fixed by simp
    also have "\<dots> = s" by (rule Cons.IH [OF rest])
    finally show ?thesis unfolding Del .
  qed
qed

lemma with_store_simps:
  "sync_entity (with_store sch parser E) = store_sync_entity sch"
  "sync_nnr (with_store sch parser E) = store_sync_nnr sch"
  "parse_blocks (with_store sch parser E) = (\<lambda>txt starter m. pureE (parser txt starter m))"
  by (simp_all add: with_store_def)

lemma load_run:
  "snd (load (with_store sch parser E) users d t parties party_users s) =
   run_steps sch (load_steps users d t parties party_users) pending s"
  by (simp add: load_def load_steps_def with_store_simps bindE_def store_sync_entity_def
        store_sync_nnr_def store_delete_def)

lemma at_rest_after_load:
  "at_rest sch (run_steps sch (load_steps users d t parties party_users) pending s) pending'
     (load_steps users d t parties party_users)"
  by (simp add: load_steps_def upsert_idem upsert_keep candidates_keep candidates_upsert
        relink_idem keep_Nil keep_keep)

lemma from_unicode_store_cases:
  "(\<exists>e. from_unicode (with_store sch parser E) domain_str gittree_str = (\<lambda>s. (Inl e, s))) \<or>
   (\<exists>users d t parties party_users.
      from_unicode (with_store sch parser E) domain_str gittree_str =
      load (with_store sch parser E) users d t parties party_users)"
proof -
  let ?W = "with_store sch parser E"
  show ?thesis
  proof (cases "parser domain_str ''D'' MAPPING")
    case (Inl e)
    then have "from_unicode ?W domain_str gittree_str = (\<lambda>s. (Inl e, s))"
      by (simp add: from_unicode_def with_store_simps bindE_def pureE_def)
    then show ?thesis by blast
  next
    case dd: (Inr domains_data)
    show ?thesis
    proof (cases "parser gittree_str ''T'' MAPPING")
      case (Inl e)
      with dd have "from_unicode ?W domain_str gittree_str = (\<lambda>s. (Inl e, s))"
        by (simp add: from_unicode_def with_store_simps bindE_def pureE_def)
      then show ?thesis by blast
    next
      case td: (Inr trees_data)
      let ?uc = "build_user_cache ?W domains_data trees_data"
      show ?thesis
      proof (cases "transform_users (uc_all ?W ?uc)")
        case (Inl e)
        with dd td have "from_unicode ?W domain_str gittree_str = (\<lambda>s. (Inl e, s))"
          by (simp add: from_unicode_def with_store_simps bindE_def pureE_def Let_def)
        then show ?thesis by blast
      next
        case us: (Inr users)
        show ?thesis
        proof (cases "transform_domains (ROLES ?W) domains_data (uc_get ?W ?uc)")
          case (Inl e)
          with dd td us have "from_unicode ?W domain_str gittree_str = (\<lambda>s. (Inl e, s))"
            by (simp add: from_unicode_def with_store_simps bindE_def pureE_def Let_def)
          then show ?thesis by blast
        next
          case d: (Inr d)
          show ?thesis
          proof (cases "transform_trees (ROLES ?W) trees_data (uc_get ?W ?uc)")
            case (Inl e)
            with dd td us d have "from_unicode ?W domain_str gittree_str = (\<lambda>s. (Inl e, s))"
              by (simp add: from_unicode_def with_store_simps bindE_def pureE_def Let_def)
            then show ?thesis by blast
          next
            case t: (Inr t)
            show ?thesis
            proof (cases "transform_parties (party_choices ?W) users")
              case (Inl e)
              with dd td us d t
              have "from_unicode ?W domain_str gittree_str = (\<lambda>s. (Inl e, s))"
                by (simp add: from_unicode_def with_store_simps bindE_def pureE_def Let_def)
              then show ?thesis by blast
            next
              case (Inr pp)
              obtain parties party_users where pp: "pp = (parties, party_users)" by (cases pp)
              with Inr dd td us d t
              have "from_unicode ?W domain_str gittree_str =
                    load ?W users d t parties party_users"
                by (simp add: from_unicode_def with_store_simps bindE_def pureE_def Let_def)
              then show ?thesis by blast
            qed
          qed
        qed
      qed
    qed
  qed
qed

text \<open>
  Claim C1. With the reconciliation engine of the specification, a second run of
  \<^verbatim>\<open>from_unicode\<close> on the same two texts leaves the store as the first run left it:
  the rows of every table and the edges of every relation are the same, whether the
  first run returned or raised. (The store is compared; the second run may raise where the
  first returned.)
\<close>

theorem from_unicode_idempotent:
  "snd (from_unicode (with_store sch parser E) domain_str gittree_str
         (snd (from_unicode (with_store sch parser E) domain_str gittree_str s))) =
   snd (from_unicode (with_store sch parser E) domain_str gittree_str s)"
proof -
  let ?W = "with_store sch parser E"
  from from_unicode_store_cases [of sch parser E domain_str gittree_str]
  show ?thesis
  proof (elim disjE exE)
    fix e assume "from_unicode ?W domain_str gittree_str = (\<lambda>s. (Inl e, s))"
    then show ?thesis by simp
  next
    fix users d t parties party_users
    assume eq: "from_unicode ?W domain_str gittree_str = load ?W users d t parties party_users"
    let ?steps = "load_steps users d t parties party_users"
    let ?p = "\<lambda>_::table. [] :: key list"
    have "run_steps sch ?steps ?p (run_steps sch ?steps ?p s) = run_steps sch ?steps ?p s"
      by (rule run_at_rest [OF at_rest_after_load])
    then show ?thesis
      unfolding eq load_run [of sch parser E users d t parties party_users _ ?p] .
  qed
qed

end
